theory Spec2Isabelle
  imports Complex_Main "HOL-Library.Char_ord" "HOL-Library.List_Lexorder" "HOL-Library.Multiset"
    "HOL-Library.Log_Nat"
begin

section \<open>The graph store: \<open>networkx.Graph\<close> as the program uses it\<close>

text \<open>
  \<open>app.py\<close> keeps the social graph in a \<open>networkx.Graph\<close>. Its adjacency structure is a
  dictionary from a node to the dictionary of that node's neighbours; both dictionaries keep
  insertion order, and the program's sorts are stable, so the order is part of the model:
  a graph is an association list from a node to the list of its neighbours.
  Node identifiers are the tokens of the input text.
\<close>

type_synonym node = string
type_synonym graph = "(node \<times> node list) list"

definition nodes :: "graph \<Rightarrow> node list" where
  "nodes g = map fst g"

text \<open>\<open>G[v]\<close>: the neighbours of a node of the graph, in insertion order.\<close>

definition adj :: "graph \<Rightarrow> node \<Rightarrow> node list" where
  "adj g v = (case map_of g v of Some ns \<Rightarrow> ns | None \<Rightarrow> [])"

definition has_edge :: "graph \<Rightarrow> node \<Rightarrow> node \<Rightarrow> bool" where
  "has_edge g u v = (case map_of g u of Some ns \<Rightarrow> v \<in> set ns | None \<Rightarrow> False)"

text \<open>
  \<open>Graph.add_edge(u, v)\<close>: both endpoints are created when absent (\<open>u\<close> first), then
  \<open>_adj[u][v]\<close> and \<open>_adj[v][u]\<close> are set. Setting a key that is already there keeps its
  place. There is no test for \<open>u = v\<close>.
\<close>

definition add_node :: "graph \<Rightarrow> node \<Rightarrow> graph" where
  "add_node g u = (if u \<in> set (nodes g) then g else g @ [(u, [])])"

definition set_nbr :: "graph \<Rightarrow> node \<Rightarrow> node \<Rightarrow> graph" where
  "set_nbr g u v =
     map (\<lambda>(x, ns). if x = u then (x, if v \<in> set ns then ns else ns @ [v]) else (x, ns)) g"

definition add_edge :: "graph \<Rightarrow> node \<Rightarrow> node \<Rightarrow> graph" where
  "add_edge g u v = set_nbr (set_nbr (add_node (add_node g u) v) u v) v u"

section \<open>\<open>parse_adjacency_list\<close>\<close>

text \<open>
  Characters are code points below 256. \<open>is_space\<close> lists those of them that Python's
  \<open>str.split()\<close> and \<open>str.strip()\<close> treat as whitespace.
\<close>

definition is_space :: "char \<Rightarrow> bool" where
  "is_space c = (c \<in> {CHR 0x09, CHR 0x0A, CHR 0x0B, CHR 0x0C, CHR 0x0D,
                        CHR 0x1C, CHR 0x1D, CHR 0x1E, CHR 0x1F, CHR 0x20, CHR 0x85, CHR 0xA0})"

text \<open>\<open>content.split('\n')\<close>: the pieces between line feeds; never an empty list.\<close>

fun split_on :: "char \<Rightarrow> string \<Rightarrow> string list" where
  "split_on sep [] = [[]]"
| "split_on sep (c # cs) =
     (if c = sep then [] # split_on sep cs
      else (case split_on sep cs of
              [] \<Rightarrow> [[c]]
            | w # ws \<Rightarrow> (c # w) # ws))"

text \<open>\<open>line.strip()\<close>: leading and trailing whitespace removed.\<close>

definition str_strip :: "string \<Rightarrow> string" where
  "str_strip s = rev (dropWhile is_space (rev (dropWhile is_space s)))"

text \<open>\<open>line.split()\<close>: the maximal runs of non-whitespace characters, in order.\<close>

fun split_ws :: "string \<Rightarrow> string \<Rightarrow> string list" where
  "split_ws cur [] = (if cur = [] then [] else [cur])"
| "split_ws cur (c # cs) =
     (if is_space c then (if cur = [] then split_ws [] cs else cur # split_ws [] cs)
      else split_ws (cur @ [c]) cs)"

definition str_split :: "string \<Rightarrow> string list" where
  "str_split s = split_ws [] s"

text \<open>The body of the loop over the lines, and the inner loop over \<open>friends\<close>.\<close>

definition parse_line :: "graph \<Rightarrow> string \<Rightarrow> graph" where
  "parse_line g line =
     (if str_strip line = [] then g
      else (let parts = str_split line in
            if length parts < 1 then g
            else (let user = hd parts; friends = tl parts in
                  foldl (\<lambda>gr friend. add_edge gr user friend) g friends)))"

definition parse_adjacency_list :: "string \<Rightarrow> graph" where
  "parse_adjacency_list content = foldl parse_line [] (split_on (CHR 0x0A) content)"

text \<open>
  What one input line asks for: \<open>line_edge line x w\<close> holds when the line's first token and
  one of its later tokens are \<open>x\<close> and \<open>w\<close>, in either order.
\<close>

definition line_edge :: "string \<Rightarrow> node \<Rightarrow> node \<Rightarrow> bool" where
  "line_edge line x w =
     (case str_split line of [] \<Rightarrow> False
      | u # fs \<Rightarrow> (x = u \<and> w \<in> set fs) \<or> (w = u \<and> x \<in> set fs))"

section \<open>The \<open>networkx\<close> operations the program calls\<close>

text \<open>Python's exceptions are values.\<close>

datatype error = NetworkXError | NetworkXPointlessConcept | ZeroDivisionError | ValueError

subsection \<open>Floats\<close>

text \<open>
  The scores of \<open>nx.degree_centrality\<close>, \<open>nx.clustering\<close>, \<open>nx.average_clustering\<close>,
  \<open>nx.density\<close> and \<open>nx.average_shortest_path_length\<close> are Python floats, and
  \<open>detect_potential_fake_accounts\<close> compares such floats. A float is modelled by the rational
  number it holds. An arithmetic says how the exact result of an operation is rounded to a
  float: \<open>x / y\<close>, \<open>x * y\<close> and \<open>x - y\<close> on floats, and \<open>i / j\<close> on integers, return the
  rounded exact result. It also says what the builtin \<open>sum\<close> returns for a list of floats,
  which depends on the interpreter: up to CPython 3.11 it adds from left to right, later
  versions carry a compensation term along. (The Jaccard scores of \<open>recommend_friends\<close> and
  the scores of \<open>nx.closeness_centrality\<close> are kept as the exact quotients, of which Python
  holds the nearest floats.)
\<close>

record arith =
  fround :: "rat \<Rightarrow> rat"
  fsum :: "rat list \<Rightarrow> rat"

text \<open>The arithmetic of the rational numbers, in which nothing is rounded.\<close>

definition exact :: arith where
  "exact = \<lparr>fround = (\<lambda>x. x), fsum = sum_list\<rparr>"

text \<open>
  The arithmetic of CPython's floats, IEEE 754 binary64 with rounding to nearest, ties to
  even: a float is an integer multiple of a power of two, with at most 53 significant bits
  and the exponent of its leading bit at least \<open>-1022\<close>. (A result of magnitude \<open>2^1024\<close> or
  more is infinite in Python; the numbers of this program stay far below.) The sum is the
  one of CPython up to 3.11.
\<close>

definition pow2 :: "int \<Rightarrow> rat" where
  "pow2 e = (if 0 \<le> e then 2 ^ nat e else 1 / 2 ^ nat (- e))"

text \<open>For a positive \<open>x\<close>, the exponent \<open>e\<close> of its leading bit: \<open>2^e \<le> x < 2^(e+1)\<close>.\<close>

definition floor_log2 :: "rat \<Rightarrow> int" where
  "floor_log2 x =
     (case quotient_of x of
        (p, q) \<Rightarrow> (let e = bitlen p - bitlen q in if pow2 e \<le> x then e else e - 1))"

definition round_half_even :: "rat \<Rightarrow> int" where
  "round_half_even x =
     (let f = \<lfloor>x\<rfloor>; r = x - of_int f
      in if r < 1 / 2 then f
         else if 1 / 2 < r then f + 1
         else if even f then f else f + 1)"

definition round64 :: "rat \<Rightarrow> rat" where
  "round64 x =
     (if x = 0 then 0
      else (let e = max (floor_log2 \<bar>x\<bar>) (- 1022);
                ulp = pow2 (e - 52)
            in sgn x * of_int (round_half_even (\<bar>x\<bar> / ulp)) * ulp))"

definition binary64 :: arith where
  "binary64 = \<lparr>fround = round64, fsum = foldl (\<lambda>s x. round64 (s + x)) 0\<rparr>"

subsection \<open>Graphs\<close>

text \<open>
  A \<open>networkx.Graph\<close> built through its own methods is well formed: node keys are unique,
  a neighbour dictionary has unique keys that are nodes, and adjacency is symmetric.
\<close>

definition wf_graph :: "graph \<Rightarrow> bool" where
  "wf_graph g \<longleftrightarrow>
     distinct (nodes g) \<and>
     (\<forall>u\<in>set (nodes g). distinct (adj g u) \<and> set (adj g u) \<subseteq> set (nodes g)) \<and>
     (\<forall>u\<in>set (nodes g). \<forall>v\<in>set (adj g u). u \<in> set (adj g v))"

text \<open>\<open>Graph.neighbors(n)\<close> raises \<open>NetworkXError\<close> for a node that is not in the graph.\<close>

definition neighbors :: "graph \<Rightarrow> node \<Rightarrow> error + node list" where
  "neighbors g n = (case map_of g n of None \<Rightarrow> Inl NetworkXError | Some ns \<Rightarrow> Inr ns)"

text \<open>\<open>G.degree()\<close>: the number of neighbours, a self-loop counted twice.\<close>

definition degree :: "graph \<Rightarrow> node \<Rightarrow> nat" where
  "degree g n = length (adj g n) + (if n \<in> set (adj g n) then 1 else 0)"

text \<open>
  \<open>G.edges()\<close> walks the nodes in order and reports \<open>(n, nbr)\<close> for every neighbour that is
  not a node walked before; \<open>len(G.edges())\<close> is half the sum of the degrees.
\<close>

fun edges_from :: "node set \<Rightarrow> graph \<Rightarrow> (node \<times> node) list" where
  "edges_from seen [] = []"
| "edges_from seen ((n, nbrs) # rest) =
     map (Pair n) (filter (\<lambda>nbr. nbr \<notin> seen) nbrs) @ edges_from (insert n seen) rest"

definition edges :: "graph \<Rightarrow> (node \<times> node) list" where
  "edges g = edges_from {} g"

definition number_of_edges :: "graph \<Rightarrow> nat" where
  "number_of_edges g = (\<Sum>n\<leftarrow>nodes g. degree g n) div 2"

text \<open>
  \<open>nx.degree_centrality\<close>: 1 for every node of a graph with at most one node, and otherwise
  \<open>d * s\<close> for a node of degree \<open>d\<close>, with \<open>s = 1.0 / (len(G) - 1.0)\<close>. (The float
  \<open>len(G) - 1.0\<close> is a positive integer rounded, so the division does not fail.)
\<close>

definition degree_centrality :: "arith \<Rightarrow> graph \<Rightarrow> (node \<times> rat) list" where
  "degree_centrality ar g =
     (if length (nodes g) \<le> 1 then map (\<lambda>n. (n, 1)) (nodes g)
      else (let s = fround ar (1 / fround ar (of_nat (length (nodes g)) - 1))
            in map (\<lambda>n. (n, fround ar (of_nat (degree g n) * s))) (nodes g)))"

text \<open>
  \<open>nx.density\<close> of an undirected graph: 0 without edges or with at most one node, and
  otherwise \<open>d = m / (n * (n - 1))\<close> followed by \<open>d *= 2\<close>.
\<close>

definition density :: "arith \<Rightarrow> graph \<Rightarrow> rat" where
  "density ar g =
     (let n = length (nodes g); m = number_of_edges g
      in if m = 0 \<or> n \<le> 1 then 0
         else (let d = fround ar (of_nat m / of_nat (n * (n - 1)))
               in fround ar (d * 2)))"

text \<open>
  \<open>nx.clustering\<close> of an unweighted undirected graph: for a node \<open>v\<close>, with \<open>vs\<close> its
  neighbours other than itself, \<open>t\<close> is the sum over \<open>w\<close> in \<open>vs\<close> of the number of members of
  \<open>vs\<close> that are neighbours of \<open>w\<close> (twice the triangles at \<open>v\<close>), and the coefficient is
  \<open>t / (d (d - 1))\<close>, or 0 when \<open>t = 0\<close>. \<open>nx.average_clustering\<close> is \<open>sum(c) / len(c)\<close>.
\<close>

definition triangles_and_degree :: "graph \<Rightarrow> node \<Rightarrow> nat \<times> nat" where
  "triangles_and_degree g v =
     (let vs = set (adj g v) - {v}
      in (card vs, \<Sum>w\<in>vs. card (vs \<inter> (set (adj g w) - {w}))))"

definition clustering_of :: "arith \<Rightarrow> graph \<Rightarrow> node \<Rightarrow> rat" where
  "clustering_of ar g v =
     (case triangles_and_degree g v of
        (d, t) \<Rightarrow> if t = 0 then 0 else fround ar (of_nat t / of_nat (d * (d - 1))))"

definition clustering :: "arith \<Rightarrow> graph \<Rightarrow> (node \<times> rat) list" where
  "clustering ar g = map (\<lambda>v. (v, clustering_of ar g v)) (nodes g)"

definition average_clustering :: "arith \<Rightarrow> graph \<Rightarrow> error + rat" where
  "average_clustering ar g =
     (let c = map snd (clustering ar g)
      in if length c = 0 then Inl ZeroDivisionError
         else Inr (fround ar (fsum ar c / of_nat (length c))))"

section \<open>\<open>recommend_friends\<close> and \<open>detect_potential_fake_accounts\<close>\<close>

text \<open>
  The body of the loop over \<open>graph.nodes()\<close>; \<open>recommendations\<close> is a dictionary, kept in
  insertion order.
\<close>

definition dict_set :: "('k \<times> 'v) list \<Rightarrow> 'k \<Rightarrow> 'v \<Rightarrow> ('k \<times> 'v) list" where
  "dict_set d k v =
     (if k \<in> fst ` set d then map (\<lambda>(k', v'). if k' = k then (k', v) else (k', v')) d
      else d @ [(k, v)])"

definition recommend_step ::
  "graph \<Rightarrow> node \<Rightarrow> node set \<Rightarrow> (node \<times> rat) list \<Rightarrow> node \<Rightarrow> (node \<times> rat) list" where
  "recommend_step g user user_neighbors recommendations potential_friend =
     (if potential_friend = user \<or> has_edge g user potential_friend then recommendations
      else (let friend_neighbors = set (adj g potential_friend);
                common_neighbors = user_neighbors \<inter> friend_neighbors;
                all_neighbors = user_neighbors \<union> friend_neighbors
            in if card all_neighbors > 0
               then dict_set recommendations potential_friend
                      (of_nat (card common_neighbors) / of_nat (card all_neighbors))
               else recommendations))"

text \<open>
  \<open>sorted(items, key=lambda x: x[1], reverse=True)[:5]\<close>: Python's sort is stable, also with
  \<open>reverse=True\<close>, so it is the stable ascending sort on the negated score.
\<close>

definition recommend_friends :: "graph \<Rightarrow> node \<Rightarrow> error + (node \<times> rat) list" where
  "recommend_friends g user =
     (case neighbors g user of
        Inl e \<Rightarrow> Inl e
      | Inr ns \<Rightarrow>
          Inr (take 5 (sort_key (\<lambda>x. - snd x)
                 (foldl (recommend_step g user (set ns)) [] (nodes g)))))"

text \<open>
  The body of the loop over \<open>clustering_coeffs.items()\<close>, with the float product
  \<open>threshold * avg_clustering\<close>, and \<open>sorted(potential_fakes, key=lambda x: x[1])[:10]\<close>.
\<close>

definition fake_step ::
  "arith \<Rightarrow> rat \<Rightarrow> rat \<Rightarrow> (node \<times> rat) list \<Rightarrow> node \<times> rat \<Rightarrow> (node \<times> rat) list" where
  "fake_step ar threshold avg_clustering potential_fakes item =
     (case item of (node, coeff) \<Rightarrow>
        if coeff < fround ar (threshold * avg_clustering) then potential_fakes @ [(node, coeff)]
        else potential_fakes)"

definition detect_potential_fake_accounts ::
  "arith \<Rightarrow> graph \<Rightarrow> rat \<Rightarrow> error + (node \<times> rat) list" where
  "detect_potential_fake_accounts ar g threshold =
     (let clustering_coeffs = clustering ar g
      in case average_clustering ar g of
           Inl e \<Rightarrow> Inl e
         | Inr avg_clustering \<Rightarrow>
             Inr (take 10 (sort_key snd
                    (foldl (fake_step ar threshold avg_clustering) [] clustering_coeffs))))"

text \<open>
  The scores the specification names: the Jaccard similarity of two neighbour sets, and the
  candidates of a query node with their scores, in the order of the graph's nodes.
\<close>

definition jaccard :: "graph \<Rightarrow> node \<Rightarrow> node \<Rightarrow> rat" where
  "jaccard g q c =
     of_nat (card (set (adj g q) \<inter> set (adj g c))) / of_nat (card (set (adj g q) \<union> set (adj g c)))"

definition candidates :: "graph \<Rightarrow> node \<Rightarrow> (node \<times> rat) list" where
  "candidates g q =
     map (\<lambda>c. (c, jaccard g q c))
       (filter (\<lambda>c. c \<noteq> q \<and> c \<notin> set (adj g q) \<and> set (adj g q) \<union> set (adj g c) \<noteq> {}) (nodes g))"

text \<open>
  The order the specification asks of a recommendation list: descending score, and among
  equal scores ascending identifier.
\<close>

definition spec_ranked :: "(node \<times> rat) list \<Rightarrow> bool" where
  "spec_ranked r =
     sorted_wrt (\<lambda>x y. snd x > snd y \<or> (snd x = snd y \<and> fst x < fst y)) r"

text \<open>
  Counting devices for the handshake argument: the incidence of two nodes, and the number of
  incident pairs \<open>(u, v)\<close> of a node list in which \<open>v\<close> does not come before \<open>u\<close>.
\<close>

definition inc :: "graph \<Rightarrow> node \<Rightarrow> node \<Rightarrow> nat" where
  "inc g u v = (if v \<in> set (adj g u) then 1 else 0)"

fun upper_count :: "graph \<Rightarrow> node list \<Rightarrow> nat" where
  "upper_count g [] = 0"
| "upper_count g (u # xs) = (\<Sum>v\<leftarrow>u # xs. inc g u v) + upper_count g xs"

section \<open>Breadth-first search\<close>

text \<open>
  \<open>nx.single_source_shortest_path_length\<close> searches level by level: \<open>seen\<close> is the set of
  nodes met so far, \<open>nextlevel\<close> the list of nodes first met at the current level. One round
  walks the neighbours of the current level's nodes, in order, and keeps those not seen
  before; the search stops when a round finds nothing, or when every node of the graph has
  been seen. The result lists each node met with its level, the source first.
\<close>

definition visit :: "node set \<times> node list \<Rightarrow> node \<Rightarrow> node set \<times> node list" where
  "visit st w =
     (case st of (seen, nextlevel) \<Rightarrow>
        if w \<notin> seen then (insert w seen, nextlevel @ [w]) else (seen, nextlevel))"

definition expand :: "graph \<Rightarrow> node set \<Rightarrow> node list \<Rightarrow> node set \<times> node list" where
  "expand g seen thislevel = foldl (\<lambda>st v. foldl visit st (adj g v)) (seen, []) thislevel"

definition universe :: "graph \<Rightarrow> node set" where
  "universe g = set (nodes g) \<union> (\<Union>ns\<in>set (map snd g). set ns)"

lemma finite_universe: "finite (universe g)"
  by (simp add: universe_def)

lemma adj_universe: "set (adj g v) \<subseteq> universe g"
proof (cases "map_of g v")
  case None
  then show ?thesis by (simp add: adj_def)
next
  case (Some ns)
  then have "(v, ns) \<in> set g" by (rule map_of_SomeD)
  then have "ns \<in> set (map snd g)" by force
  with Some show ?thesis by (auto simp: adj_def universe_def)
qed

lemma visit_simps:
  "w \<in> seen \<Longrightarrow> visit (seen, nl) w = (seen, nl)"
  "w \<notin> seen \<Longrightarrow> visit (seen, nl) w = (insert w seen, nl @ [w])"
  by (simp_all add: visit_def)

lemma foldl_visit:
  "foldl visit (seen, nl) ws = (seen', nl') \<Longrightarrow>
     seen' = seen \<union> set ws \<and> set nl' = set nl \<union> (set ws - seen) \<and>
     (distinct nl \<and> set nl \<subseteq> seen \<longrightarrow> distinct nl')"
proof (induction ws arbitrary: seen nl)
  case Nil
  then show ?case by simp
next
  case (Cons w ws)
  show ?case
  proof (cases "w \<in> seen")
    case True
    with Cons.prems have "foldl visit (seen, nl) ws = (seen', nl')" by (simp add: visit_simps)
    from Cons.IH [OF this] True show ?thesis by auto
  next
    case False
    with Cons.prems have "foldl visit (insert w seen, nl @ [w]) ws = (seen', nl')"
      by (simp add: visit_simps)
    from Cons.IH [OF this] False show ?thesis by auto
  qed
qed

lemma foldl_expand:
  "foldl (\<lambda>st v. foldl visit st (adj g v)) (seen, nl) vs = (seen', nl') \<Longrightarrow>
     seen' = seen \<union> (\<Union>v\<in>set vs. set (adj g v)) \<and>
     set nl' = set nl \<union> ((\<Union>v\<in>set vs. set (adj g v)) - seen) \<and>
     (distinct nl \<and> set nl \<subseteq> seen \<longrightarrow> distinct nl')"
proof (induction vs arbitrary: seen nl)
  case Nil
  then show ?case by simp
next
  case (Cons v vs)
  obtain s1 n1 where 1: "foldl visit (seen, nl) (adj g v) = (s1, n1)"
    by (cases "foldl visit (seen, nl) (adj g v)")
  with Cons.prems have 2: "foldl (\<lambda>st v. foldl visit st (adj g v)) (s1, n1) vs = (seen', nl')"
    by simp
  from foldl_visit [OF 1] Cons.IH [OF 2] show ?case by auto
qed

lemma expand_props:
  assumes "expand g seen thislevel = (seen', nextlevel)"
  shows "seen' = seen \<union> set nextlevel"
    and "set nextlevel = (\<Union>v\<in>set thislevel. set (adj g v)) - seen"
    and "distinct nextlevel"
  using foldl_expand [OF assms [unfolded expand_def]] by auto

function bfs_levels :: "graph \<Rightarrow> node set \<Rightarrow> node list \<Rightarrow> nat \<Rightarrow> (node \<times> nat) list" where
  "bfs_levels g seen nextlevel level =
     (if nextlevel = [] then []
      else (case expand g seen nextlevel of
              (seen', nextlevel') \<Rightarrow>
                map (\<lambda>w. (w, level + 1)) nextlevel' @
                (if card seen' = length (nodes g) then []
                 else bfs_levels g seen' nextlevel' (level + 1))))"
  by pat_completeness auto
termination
  apply (relation "(\<lambda>(g, seen, nextlevel, level). card (universe g - seen)) <*mlex*>
                   measure (\<lambda>(g, seen, nextlevel, level). length nextlevel)")
  subgoal by (simp add: wf_mlex)
  subgoal premises prems for g seen nextlevel level seen' nextlevel'
  proof -
    from prems have ne: "nextlevel \<noteq> []"
      and e: "expand g seen nextlevel = (seen', nextlevel')" by simp_all
    note props = expand_props [OF e]
    show ?thesis
    proof (cases "nextlevel' = []")
      case True
      with props(1) have "seen' = seen" by simp
      with True ne show ?thesis by (simp add: mlex_iff)
    next
      case False
      then obtain w where w: "w \<in> set nextlevel'" by (cases nextlevel') auto
      with props(2) have "w \<notin> seen" and "w \<in> universe g"
        using adj_universe [of g] by auto
      then have "universe g - seen' \<subset> universe g - seen"
        using props(1) w by auto
      then have "card (universe g - seen') < card (universe g - seen)"
        by (intro psubset_card_mono) (auto simp: finite_universe)
      then show ?thesis by (simp add: mlex_iff)
    qed
  qed
  done

declare bfs_levels.simps [simp del]

lemma bfs_levels_Nil: "bfs_levels g seen [] level = []"
  by (subst bfs_levels.simps) simp

lemma bfs_levels_step:
  "nextlevel \<noteq> [] \<Longrightarrow> expand g seen nextlevel = (seen', nextlevel') \<Longrightarrow>
   bfs_levels g seen nextlevel level =
     map (\<lambda>w. (w, level + 1)) nextlevel' @
     (if card seen' = length (nodes g) then [] else bfs_levels g seen' nextlevel' (level + 1))"
  by (subst bfs_levels.simps) simp

definition single_source_shortest_path_length :: "graph \<Rightarrow> node \<Rightarrow> (node \<times> nat) list" where
  "single_source_shortest_path_length g source = (source, 0) # bfs_levels g {source} [source] 0"

text \<open>
  What the specification speaks of: a walk of \<open>k\<close> edges from \<open>s\<close>, the nodes reachable from
  \<open>s\<close>, and the shortest-path distance. \<open>layer\<close> and \<open>ball\<close> are the nodes at distance exactly
  \<open>k\<close> and at most \<open>k\<close>.
\<close>

inductive walk :: "graph \<Rightarrow> node \<Rightarrow> nat \<Rightarrow> node \<Rightarrow> bool" for g s where
  walk_0: "walk g s 0 s"
| walk_Suc: "walk g s k v \<Longrightarrow> w \<in> set (adj g v) \<Longrightarrow> walk g s (Suc k) w"

definition reachable :: "graph \<Rightarrow> node \<Rightarrow> node set" where
  "reachable g s = {u. \<exists>k. walk g s k u}"

definition distance :: "graph \<Rightarrow> node \<Rightarrow> node \<Rightarrow> nat" where
  "distance g s u = (LEAST k. walk g s k u)"

definition layer :: "graph \<Rightarrow> node \<Rightarrow> nat \<Rightarrow> node set" where
  "layer g s k = {u. walk g s k u \<and> (\<forall>j<k. \<not> walk g s j u)}"

definition ball :: "graph \<Rightarrow> node \<Rightarrow> nat \<Rightarrow> node set" where
  "ball g s k = {u. \<exists>j\<le>k. walk g s j u}"

section \<open>Closeness, connectivity and path length\<close>

text \<open>
  \<open>nx.closeness_centrality(G)\<close> with its default \<open>wf_improved=True\<close>: for every node, from
  the search result \<open>sp\<close>, \<open>(len(sp) - 1) / totsp\<close> scaled by \<open>(len(sp) - 1) / (len(G) - 1)\<close>,
  or 0 when \<open>totsp\<close> is 0 or the graph has one node.
\<close>

definition closeness_of :: "graph \<Rightarrow> node \<Rightarrow> rat" where
  "closeness_of g n =
     (let sp = single_source_shortest_path_length g n;
          totsp = sum_list (map snd sp);
          len_G = length (nodes g)
      in if totsp > 0 \<and> len_G > 1
         then (let c = (of_nat (length sp) - 1) / of_nat totsp;
                   s = (of_nat (length sp) - 1) / (of_nat len_G - 1)
               in c * s)
         else 0)"

definition closeness_centrality :: "graph \<Rightarrow> (node \<times> rat) list" where
  "closeness_centrality g = map (\<lambda>n. (n, closeness_of g n)) (nodes g)"

text \<open>
  \<open>nx.is_connected\<close> searches from the first node and compares the number of nodes met with
  the number of nodes; \<open>nx.average_shortest_path_length\<close> raises \<open>NetworkXError\<close> for a graph
  that is not connected.
\<close>

definition is_connected :: "graph \<Rightarrow> error + bool" where
  "is_connected g =
     (if length (nodes g) = 0 then Inl NetworkXPointlessConcept
      else Inr (length (single_source_shortest_path_length g (hd (nodes g))) = length (nodes g)))"

definition average_shortest_path_length :: "arith \<Rightarrow> graph \<Rightarrow> error + rat" where
  "average_shortest_path_length ar g =
     (let n = length (nodes g)
      in if n = 0 then Inl NetworkXPointlessConcept
         else if n = 1 then Inr 0
         else (case is_connected g of
                 Inl e \<Rightarrow> Inl e
               | Inr conn \<Rightarrow>
                   if \<not> conn then Inl NetworkXError
                   else Inr (fround ar
                          (of_nat (\<Sum>u\<leftarrow>nodes g.
                                     sum_list (map snd (single_source_shortest_path_length g u)))
                           / of_nat (n * (n - 1))))))"

section \<open>Betweenness sources and \<open>calculate_metrics\<close>\<close>

text \<open>
  \<open>random.sample(population, k)\<close>, which \<open>nx.betweenness_centrality\<close> calls when it is given
  \<open>k\<close>. The generator is a stream of draws; \<open>randbelow\<close> reduces a draw to the asked range.
  The loop is the one Python runs on a copy of the population: it takes the element at a
  drawn position of the part not yet taken and moves that part's last element into the
  vacancy. (For a population much larger than \<open>k\<close> Python draws positions until it finds one
  not yet taken; the lists it can return are the same.)
\<close>

definition randbelow :: "(nat \<Rightarrow> nat) \<Rightarrow> nat \<Rightarrow> nat \<Rightarrow> nat" where
  "randbelow rnd i m = rnd i mod m"

fun sample_loop :: "(nat \<Rightarrow> nat) \<Rightarrow> nat \<Rightarrow> nat \<Rightarrow> nat \<Rightarrow> 'a list \<Rightarrow> 'a list" where
  "sample_loop rnd n i 0 pool = []"
| "sample_loop rnd n i (Suc r) pool =
     (let j = randbelow rnd i (n - i)
      in pool ! j # sample_loop rnd n (i + 1) r (pool[j := pool ! (n - i - 1)]))"

definition random_sample :: "(nat \<Rightarrow> nat) \<Rightarrow> 'a list \<Rightarrow> nat \<Rightarrow> error + 'a list" where
  "random_sample rnd population k =
     (let n = length population
      in if \<not> k \<le> n then Inl ValueError
         else Inr (sample_loop rnd n 0 k population))"

text \<open>
  The two library routines whose results no claim looks into are parameters of the model,
  next to the random generator: the accumulation of \<open>nx.betweenness_centrality\<close> over the
  source nodes it is given (with the sample size, for its rescaling), and
  \<open>community_louvain.best_partition\<close>.
\<close>

record library =
  rand :: "nat \<Rightarrow> nat"
  accumulate :: "graph \<Rightarrow> node list \<Rightarrow> nat option \<Rightarrow> (node \<times> rat) list"
  best_partition :: "graph \<Rightarrow> (node \<times> nat) list"

text \<open>
  \<open>nx.betweenness_centrality(G, k)\<close>: every node is a source when \<open>k\<close> is \<open>None\<close>, and
  otherwise the sources are \<open>random.sample(list(G.nodes()), k)\<close>.
\<close>

definition betweenness_sources :: "library \<Rightarrow> graph \<Rightarrow> nat option \<Rightarrow> error + node list" where
  "betweenness_sources lib g k =
     (case k of
        None \<Rightarrow> Inr (nodes g)
      | Some k' \<Rightarrow> random_sample (rand lib) (nodes g) k')"

definition betweenness_centrality ::
  "library \<Rightarrow> graph \<Rightarrow> nat option \<Rightarrow> error + (node \<times> rat) list" where
  "betweenness_centrality lib g k =
     (case betweenness_sources lib g k of
        Inl e \<Rightarrow> Inl e
      | Inr sources \<Rightarrow> Inr (accumulate lib g sources k))"

text \<open>
  The result of \<open>calculate_metrics\<close>: \<open>None\<close> is the empty dictionary it returns for a graph
  without nodes. The entry \<open>avg_path_length\<close> is a number or the string
  \<open>"Graph is not connected"\<close>, which the bare \<open>except\<close> stores for any exception.
\<close>

datatype path_length = Path_length rat | Graph_is_not_connected

record metrics =
  m_degree_centrality :: "(node \<times> rat) list"
  m_betweenness_centrality :: "(node \<times> rat) list"
  m_closeness_centrality :: "(node \<times> rat) list"
  m_communities :: "(node \<times> nat) list"
  m_clustering_coefficients :: "(node \<times> rat) list"
  m_avg_path_length :: path_length
  m_density :: rat

definition calculate_metrics :: "arith \<Rightarrow> library \<Rightarrow> graph \<Rightarrow> error + metrics option" where
  "calculate_metrics ar lib g =
     (if length (nodes g) = 0 then Inr None
      else (case betweenness_centrality lib g (Some (min 100 (length (nodes g)))) of
              Inl e \<Rightarrow> Inl e
            | Inr bc \<Rightarrow>
                Inr (Some \<lparr>
                  m_degree_centrality = degree_centrality ar g,
                  m_betweenness_centrality = bc,
                  m_closeness_centrality = closeness_centrality g,
                  m_communities = best_partition lib g,
                  m_clustering_coefficients = clustering ar g,
                  m_avg_path_length =
                    (case average_shortest_path_length ar g of
                       Inl e \<Rightarrow> Graph_is_not_connected
                     | Inr l \<Rightarrow> Path_length l),
                  m_density = density ar g \<rparr>)))"

section \<open>Properties of the graph store and of the parser\<close>


lemma nodes_add_node: "nodes (add_node g u) = (if u \<in> set (nodes g) then nodes g else nodes g @ [u])"
  by (simp add: add_node_def nodes_def)

lemma nodes_set_nbr [simp]: "nodes (set_nbr g u v) = nodes g"
  by (induction g) (auto simp: set_nbr_def nodes_def)

lemma set_nodes_add_edge: "set (nodes (add_edge g u v)) = set (nodes g) \<union> {u, v}"
  by (auto simp: add_edge_def nodes_add_node)

lemma distinct_nodes_add_edge: "distinct (nodes g) \<Longrightarrow> distinct (nodes (add_edge g u v))"
  by (auto simp: add_edge_def nodes_add_node)

lemma map_of_notin_nodes: "x \<notin> set (nodes g) \<Longrightarrow> map_of g x = None"
  by (simp add: nodes_def map_of_eq_None_iff)

lemma map_of_None_nodes: "map_of g x = None \<Longrightarrow> x \<notin> set (nodes g)"
  by (simp add: nodes_def map_of_eq_None_iff)

lemma map_of_Some_nodes: "map_of g x = Some ns \<Longrightarrow> x \<in> set (nodes g)"
  by (metis map_of_notin_nodes option.distinct(1))

lemma adj_add_node: "adj (add_node g u) x = adj g x"
  by (auto simp: add_node_def adj_def map_of_notin_nodes dest: map_of_Some_nodes split: option.splits if_splits)

lemma map_of_set_nbr:
  "map_of (set_nbr g u v) x =
     (case map_of g x of None \<Rightarrow> None
      | Some ns \<Rightarrow> Some (if x = u then (if v \<in> set ns then ns else ns @ [v]) else ns))"
  by (induction g) (auto simp: set_nbr_def)

lemma adj_set_nbr:
  "adj (set_nbr g u v) x =
     (if x = u \<and> u \<in> set (nodes g) \<and> v \<notin> set (adj g u) then adj g u @ [v] else adj g x)"
  by (auto simp: adj_def map_of_set_nbr map_of_notin_nodes dest: map_of_Some_nodes map_of_None_nodes split: option.splits)

lemma set_adj_add_edge:
  "set (adj (add_edge g u v) x) =
     set (adj g x) \<union> (if x = u then {v} else {}) \<union> (if x = v then {u} else {})"
  by (auto simp: add_edge_def adj_set_nbr adj_add_node nodes_add_node)

lemma split_ws_Nil_iff: "split_ws cur s = [] \<longleftrightarrow> cur = [] \<and> (\<forall>c\<in>set s. is_space c)"
  by (induction s arbitrary: cur) auto

lemma str_split_Nil_iff: "str_split s = [] \<longleftrightarrow> (\<forall>c\<in>set s. is_space c)"
  by (simp add: str_split_def split_ws_Nil_iff)

lemma str_strip_Nil_iff: "str_strip s = [] \<longleftrightarrow> (\<forall>c\<in>set s. is_space c)"
proof
  assume "str_strip s = []"
  then have all: "\<forall>c\<in>set (dropWhile is_space s). is_space c"
    by (simp add: str_strip_def dropWhile_eq_Nil_conv)
  have "dropWhile is_space s = []"
  proof (rule ccontr)
    assume ne: "dropWhile is_space s \<noteq> []"
    then have "\<not> is_space (hd (dropWhile is_space s))" by (rule hd_dropWhile)
    moreover have "hd (dropWhile is_space s) \<in> set (dropWhile is_space s)"
      using ne by (rule hd_in_set)
    ultimately show False using all by blast
  qed
  then show "\<forall>c\<in>set s. is_space c" by (simp add: dropWhile_eq_Nil_conv)
next
  assume "\<forall>c\<in>set s. is_space c"
  then have d: "dropWhile is_space s = []" by (simp add: dropWhile_eq_Nil_conv)
  show "str_strip s = []" by (simp only: str_strip_def d rev.simps dropWhile.simps)
qed

lemma parse_line_eq:
  "parse_line g line =
     (case str_split line of [] \<Rightarrow> g
      | user # friends \<Rightarrow> foldl (\<lambda>gr friend. add_edge gr user friend) g friends)"
proof (cases "str_split line")
  case Nil
  then show ?thesis
    using str_split_Nil_iff [of line] str_strip_Nil_iff [of line] by (simp add: parse_line_def)
next
  case (Cons u fs)
  then have "str_strip line \<noteq> []"
    using str_split_Nil_iff [of line] str_strip_Nil_iff [of line] by simp
  with Cons show ?thesis by (simp add: parse_line_def)
qed

lemma set_adj_friends:
  "set (adj (foldl (\<lambda>gr f. add_edge gr u f) g fs) x) =
     set (adj g x) \<union> (if x = u then set fs else {}) \<union> (if x \<in> set fs then {u} else {})"
  by (induction fs arbitrary: g) (auto simp: set_adj_add_edge)

lemma set_nodes_friends:
  "set (nodes (foldl (\<lambda>gr f. add_edge gr u f) g fs)) =
     set (nodes g) \<union> (if fs = [] then {} else insert u (set fs))"
  by (induction fs arbitrary: g) (auto simp: set_nodes_add_edge)

lemma set_adj_parse_line:
  "set (adj (parse_line g line) x) = set (adj g x) \<union> {w. line_edge line x w}"
  by (auto simp: parse_line_eq line_edge_def set_adj_friends split: list.splits)

lemma set_adj_parse_lines:
  "set (adj (foldl parse_line g ls) x) = set (adj g x) \<union> {w. \<exists>l\<in>set ls. line_edge l x w}"
  by (induction ls arbitrary: g) (auto simp: set_adj_parse_line)

lemma set_nodes_parse_line:
  "set (nodes (parse_line g line)) = set (nodes g) \<union> {x. \<exists>w. line_edge line x w}"
proof (cases "str_split line")
  case Nil
  then show ?thesis by (simp add: parse_line_eq line_edge_def)
next
  case (Cons u fs)
  have "fs \<noteq> [] \<Longrightarrow> \<exists>w. w \<in> set fs" by (cases fs) auto
  with Cons show ?thesis
    by (auto simp: parse_line_eq line_edge_def set_nodes_friends)
qed

lemma set_nodes_parse_lines:
  "set (nodes (foldl parse_line g ls)) = set (nodes g) \<union> {x. \<exists>l\<in>set ls. \<exists>w. line_edge l x w}"
  by (induction ls arbitrary: g) (auto simp: set_nodes_parse_line)

lemma adj_Nil [simp]: "adj [] x = []" by (simp add: adj_def)
lemma nodes_Nil [simp]: "nodes [] = []" by (simp add: nodes_def)

lemma set_adj_parse:
  "set (adj (parse_adjacency_list content) x) =
     {w. \<exists>l\<in>set (split_on (CHR 0x0A) content). line_edge l x w}"
  by (simp add: parse_adjacency_list_def set_adj_parse_lines)

lemma set_nodes_parse:
  "set (nodes (parse_adjacency_list content)) =
     {x. \<exists>l\<in>set (split_on (CHR 0x0A) content). \<exists>w. line_edge l x w}"
  by (simp add: parse_adjacency_list_def set_nodes_parse_lines)

lemma has_edge_adj: "has_edge g u v \<longleftrightarrow> v \<in> set (adj g u)"
  by (simp add: has_edge_def adj_def split: option.splits)

section \<open>Claims about the parser\<close>

text \<open>
  Claim C3 says that the constructed graph never has a self-loop. The parser calls
  \<open>add_edge(user, friend)\<close> for every later token of a line and never compares the two, so
  the line \<open>A A\<close> makes \<open>A\<close> its own neighbour.
\<close>

theorem parse_self_loop_counterexample:
  "''A'' \<in> set (adj (parse_adjacency_list ''A A'') ''A'')"
  by code_simp

text \<open>
  C3 as the code has it: a node \<open>v\<close> is in its own neighbour set exactly when some input
  line has \<open>v\<close> as its first token and again as one of its later tokens.
\<close>

theorem parse_self_loop_iff:
  "v \<in> set (adj (parse_adjacency_list content) v) \<longleftrightarrow>
     (\<exists>line\<in>set (split_on (CHR 0x0A) content). \<exists>friends.
         str_split line = v # friends \<and> v \<in> set friends)"
proof -
  have "line_edge l v v \<longleftrightarrow> (\<exists>friends. str_split l = v # friends \<and> v \<in> set friends)" for l
    by (cases "str_split l") (auto simp: line_edge_def)
  then show ?thesis by (simp add: set_adj_parse)
qed

theorem parse_self_loop_iff_witness:
  "''B'' \<notin> set (adj (parse_adjacency_list ''A B'') ''B'')"
proof -
  have "split_on (CHR 0x0A) ''A B'' = [''A B'']" by code_simp
  moreover have "str_split ''A B'' = [''A'', ''B'']" by code_simp
  ultimately show ?thesis
    using parse_self_loop_iff [of "''B''" "''A B''"] by simp
qed

text \<open>
  Claim C10: a line with a single token changes nothing, and every node of a parsed graph
  has a non-empty neighbour set, that is, it is an endpoint of at least one edge.
\<close>

theorem parse_no_isolated_nodes:
  "(str_split line = [tok] \<longrightarrow> parse_line g line = g) \<and>
   (v \<in> set (nodes (parse_adjacency_list content)) \<longrightarrow>
      adj (parse_adjacency_list content) v \<noteq> [] \<and>
      (\<exists>w. has_edge (parse_adjacency_list content) v w))"
proof (intro conjI impI)
  assume "str_split line = [tok]"
  then show "parse_line g line = g" by (simp add: parse_line_eq)
next
  assume "v \<in> set (nodes (parse_adjacency_list content))"
  then obtain w where "w \<in> set (adj (parse_adjacency_list content) v)"
    by (auto simp: set_nodes_parse set_adj_parse)
  then show "adj (parse_adjacency_list content) v \<noteq> []" by auto
  from \<open>w \<in> _\<close> show "\<exists>w. has_edge (parse_adjacency_list content) v w"
    by (auto simp: has_edge_adj)
qed

theorem parse_no_isolated_nodes_witness:
  "parse_line [] ''D'' = [] \<and>
   nodes (parse_adjacency_list ''A B\<newline>D'') = [''A'', ''B''] \<and>
   adj (parse_adjacency_list ''A B\<newline>D'') ''A'' \<noteq> [] \<and>
   (\<exists>w. has_edge (parse_adjacency_list ''A B\<newline>D'') ''A'' w)"
proof -
  have s: "str_split ''D'' = [''D'']" by code_simp
  have n: "nodes (parse_adjacency_list ''A B\<newline>D'') = [''A'', ''B'']" by code_simp
  show ?thesis
    using parse_no_isolated_nodes [of "''D''" "''D''" "[]" "''A''" "''A B\<newline>D''"] s n
    by simp
qed

section \<open>Recommendations and anomaly candidates\<close>

lemma neighbors_in_graph: "q \<in> set (nodes g) \<Longrightarrow> neighbors g q = Inr (adj g q)"
  by (cases "map_of g q") (auto simp: neighbors_def adj_def dest: map_of_None_nodes)

lemma neighbors_not_in_graph: "q \<notin> set (nodes g) \<Longrightarrow> neighbors g q = Inl NetworkXError"
  by (simp add: neighbors_def map_of_notin_nodes)

lemma dict_set_fresh: "k \<notin> fst ` set d \<Longrightarrow> dict_set d k v = d @ [(k, v)]"
  by (simp add: dict_set_def)

lemma recommend_step_eq:
  "c \<notin> fst ` set acc \<Longrightarrow>
   recommend_step g q (set (adj g q)) acc c =
     acc @ map (\<lambda>c. (c, jaccard g q c))
             (filter (\<lambda>c. c \<noteq> q \<and> c \<notin> set (adj g q) \<and> set (adj g q) \<union> set (adj g c) \<noteq> {}) [c])"
  by (auto simp: recommend_step_def has_edge_adj dict_set_fresh jaccard_def Let_def card_gt_0_iff)

lemma foldl_recommend_step:
  "distinct xs \<Longrightarrow> fst ` set acc \<inter> set xs = {} \<Longrightarrow>
   foldl (recommend_step g q (set (adj g q))) acc xs =
     acc @ map (\<lambda>c. (c, jaccard g q c))
             (filter (\<lambda>c. c \<noteq> q \<and> c \<notin> set (adj g q) \<and> set (adj g q) \<union> set (adj g c) \<noteq> {}) xs)"
proof (induction xs arbitrary: acc)
  case Nil
  then show ?case by simp
next
  case (Cons x xs)
  let ?P = "\<lambda>c. c \<noteq> q \<and> c \<notin> set (adj g q) \<and> set (adj g q) \<union> set (adj g c) \<noteq> {}"
  let ?acc' = "acc @ map (\<lambda>c. (c, jaccard g q c)) (filter ?P [x])"
  from Cons.prems have x: "x \<notin> fst ` set acc" by auto
  have step: "recommend_step g q (set (adj g q)) acc x = ?acc'"
    using x by (rule recommend_step_eq)
  have disj: "fst ` set ?acc' \<inter> set xs = {}"
    using Cons.prems by (auto simp: image_Un)
  have d: "distinct xs" using Cons.prems by simp
  from d disj have "foldl (recommend_step g q (set (adj g q))) ?acc' xs =
      ?acc' @ map (\<lambda>c. (c, jaccard g q c)) (filter ?P xs)"
    by (rule Cons.IH)
  then show ?case by (simp only: foldl_Cons step) simp
qed

lemma recommend_friends_eq:
  assumes "distinct (nodes g)" and "q \<in> set (nodes g)"
  shows "recommend_friends g q = Inr (take 5 (sort_key (\<lambda>x. - snd x) (candidates g q)))"
proof -
  have "foldl (recommend_step g q (set (adj g q))) [] (nodes g) = candidates g q"
    using foldl_recommend_step [of "nodes g" "[]" g q] assms(1) by (simp add: candidates_def)
  then show ?thesis
    by (simp add: recommend_friends_def neighbors_in_graph [OF assms(2)])
qed

lemma filter_take_prefix: "\<exists>rest. filter P xs = filter P (take n xs) @ rest"
proof -
  have "filter P xs = filter P (take n xs) @ filter P (drop n xs)"
    by (metis append_take_drop_id filter_append)
  then show ?thesis by blast
qed

lemma take_sorted_least:
  assumes "sorted (map f xs)" and "x \<in> set xs" and "x \<notin> set (take n xs)"
  shows "length (take n xs) = n \<and> (\<forall>y\<in>set (take n xs). f y \<le> f x)"
proof -
  have xs: "xs = take n xs @ drop n xs" by simp
  from assms(2,3) have xd: "x \<in> set (drop n xs)"
    by (metis Un_iff append_take_drop_id set_append)
  then have "drop n xs \<noteq> []" by auto
  then have len: "length (take n xs) = n" by simp
  from assms(1) have "sorted (map f (take n xs) @ map f (drop n xs))"
    by (metis xs map_append)
  then have "\<forall>y\<in>set (take n xs). f y \<le> f x"
    using xd by (auto simp: sorted_append)
  with len show ?thesis by blast
qed

lemma foldl_fake_step:
  "foldl (fake_step ar t avg) acc xs = acc @ filter (\<lambda>x. snd x < fround ar (t * avg)) xs"
  by (induction xs arbitrary: acc) (auto simp: fake_step_def split: prod.splits)

lemma average_clustering_nonempty:
  "nodes g \<noteq> [] \<Longrightarrow>
   average_clustering ar g =
     Inr (fround ar (fsum ar (map (clustering_of ar g) (nodes g)) / of_nat (length (nodes g))))"
  by (simp add: average_clustering_def clustering_def Let_def comp_def)

lemma average_clustering_empty:
  "nodes g = [] \<Longrightarrow> average_clustering ar g = Inl ZeroDivisionError"
  by (simp add: average_clustering_def clustering_def)

lemma detect_eq:
  "average_clustering ar g = Inr avg \<Longrightarrow>
   detect_potential_fake_accounts ar g t =
     Inr (take 10 (sort_key snd (filter (\<lambda>x. snd x < fround ar (t * avg)) (clustering ar g))))"
  by (simp add: detect_potential_fake_accounts_def foldl_fake_step)

lemma detect_empty:
  "nodes g = [] \<Longrightarrow> detect_potential_fake_accounts ar g t = Inl ZeroDivisionError"
  by (simp add: detect_potential_fake_accounts_def average_clustering_empty)

text \<open>
  Claim C5 asks for ties in the recommendation list to be broken by ascending candidate
  identifier. The program sorts the dictionary's items by score alone with a stable sort, so
  candidates of equal score stay in the order in which the graph got its nodes: with the
  nodes created in the order \<open>Z, X, A, Q\<close>, the candidates \<open>Z\<close> and \<open>A\<close> of \<open>Q\<close> both score 1
  and \<open>Z\<close> comes first.
\<close>

theorem recommend_friends_tie_counterexample:
  "recommend_friends (parse_adjacency_list ''Z X\<newline>A X\<newline>Q X'') ''Q'' = Inr [(''Z'', 1), (''A'', 1)] \<and>
   ''A'' < ''Z'' \<and> \<not> spec_ranked [(''Z'', 1), (''A'', 1)]"
proof -
  have "recommend_friends (parse_adjacency_list ''Z X\<newline>A X\<newline>Q X'') ''Q'' = Inr [(''Z'', 1), (''A'', 1)]"
    by code_simp
  moreover have "''A'' < ''Z''" by simp
  moreover have "\<not> spec_ranked [(''Z'', 1), (''A'', 1)]" by (simp add: spec_ranked_def)
  ultimately show ?thesis by blast
qed

text \<open>
  C5 as the code has it, for a query node of a graph with unique node keys: the call returns
  a list of at most five pairs; every pair is a node other than the query node that is not
  its neighbour, has a non-empty union of neighbour sets with it, and carries the Jaccard
  similarity; the list is in descending order of score; pairs of equal score come in the
  order of the graph's nodes; and a candidate that is left out scores no more than any pair
  of a full list of five.
\<close>

theorem recommend_friends_ranking:
  assumes "distinct (nodes g)" and "q \<in> set (nodes g)"
  shows "\<exists>r. recommend_friends g q = Inr r \<and> length r \<le> 5 \<and>
           (\<forall>x\<in>set r. fst x \<in> set (nodes g) \<and> fst x \<noteq> q \<and> \<not> has_edge g q (fst x) \<and>
                        set (adj g q) \<union> set (adj g (fst x)) \<noteq> {} \<and>
                        snd x = jaccard g q (fst x)) \<and>
           sorted_wrt (\<lambda>x y. snd x \<ge> snd y) r \<and>
           (\<forall>k. \<exists>rest. filter (\<lambda>x. snd x = k) (candidates g q) = filter (\<lambda>x. snd x = k) r @ rest) \<and>
           (\<forall>x\<in>set (candidates g q). x \<notin> set r \<longrightarrow> length r = 5 \<and> (\<forall>y\<in>set r. snd x \<le> snd y))"
proof -
  let ?f = "\<lambda>x::node \<times> rat. - snd x"
  let ?s = "sort_key ?f (candidates g q)"
  let ?r = "take 5 ?s"
  have eq: "recommend_friends g q = Inr ?r"
    using assms by (rule recommend_friends_eq)
  have len: "length ?r \<le> 5" by simp
  have sub: "set ?r \<subseteq> set (candidates g q)"
    using set_take_subset [of 5 ?s] by simp
  have mem: "\<forall>x\<in>set ?r. fst x \<in> set (nodes g) \<and> fst x \<noteq> q \<and> \<not> has_edge g q (fst x) \<and>
                        set (adj g q) \<union> set (adj g (fst x)) \<noteq> {} \<and>
                        snd x = jaccard g q (fst x)"
    using sub by (auto simp: candidates_def has_edge_adj)
  have so: "sorted (map ?f ?s)" by (rule sorted_sort_key)
  then have "sorted (map ?f ?r)"
    by (metis sorted_wrt_take take_map)
  then have desc: "sorted_wrt (\<lambda>x y. snd x \<ge> snd y) ?r"
    by (simp add: sorted_wrt_map)
  have ties: "\<exists>rest. filter (\<lambda>x. snd x = k) (candidates g q) = filter (\<lambda>x. snd x = k) ?r @ rest" for k
  proof -
    have "filter (\<lambda>x. ?f x = - k) ?s = filter (\<lambda>x. ?f x = - k) (candidates g q)"
      by (rule sort_key_stable)
    then have "filter (\<lambda>x. snd x = k) ?s = filter (\<lambda>x. snd x = k) (candidates g q)"
      by simp
    then show ?thesis
      using filter_take_prefix [of "\<lambda>x. snd x = k" ?s 5] by simp
  qed
  have top: "\<forall>x\<in>set (candidates g q). x \<notin> set ?r \<longrightarrow> length ?r = 5 \<and> (\<forall>y\<in>set ?r. snd x \<le> snd y)"
  proof (intro ballI impI)
    fix x assume "x \<in> set (candidates g q)" and out: "x \<notin> set ?r"
    then have "x \<in> set ?s" by simp
    from take_sorted_least [OF so this out]
    show "length ?r = 5 \<and> (\<forall>y\<in>set ?r. snd x \<le> snd y)" by simp
  qed
  from eq len mem desc ties top show ?thesis by blast
qed

theorem recommend_friends_ranking_witness:
  "\<exists>r. recommend_friends (parse_adjacency_list ''Z X\<newline>A X\<newline>Q X'') ''Q'' = Inr r \<and> length r \<le> 5 \<and>
       sorted_wrt (\<lambda>x y. snd x \<ge> snd y) r"
proof -
  have g: "parse_adjacency_list ''Z X\<newline>A X\<newline>Q X'' =
      [(''Z'', [''X'']), (''X'', [''Z'', ''A'', ''Q'']), (''A'', [''X'']), (''Q'', [''X''])]"
    by code_simp
  have d: "distinct (nodes (parse_adjacency_list ''Z X\<newline>A X\<newline>Q X''))"
    unfolding g by (simp add: nodes_def)
  have q: "''Q'' \<in> set (nodes (parse_adjacency_list ''Z X\<newline>A X\<newline>Q X''))"
    unfolding g by (simp add: nodes_def)
  from recommend_friends_ranking [OF d q] show ?thesis by blast
qed

text \<open>
  Claim C6, on the floats the program computes, whatever the arithmetic rounds to. On a
  graph with at least one node the detector returns a list. For a returned list, with \<open>avg\<close>
  the result of \<open>nx.average_clustering\<close>, which is the float quotient of the \<open>sum\<close> of the
  nodes' clustering coefficients by the number of nodes, and \<open>bound\<close> the float product
  \<open>threshold * avg\<close>: the list has at most ten pairs; each pair is a node of the graph with
  its clustering coefficient, which is strictly below \<open>bound\<close>; the list is in ascending
  order of coefficient; and a node with a coefficient below \<open>bound\<close> that is left out has a
  coefficient no smaller than any in a full list of ten. (On the empty graph
  \<open>nx.average_clustering\<close> divides by zero and nothing is returned.)
\<close>

theorem detect_potential_fake_accounts_flags:
  "(nodes g \<noteq> [] \<longrightarrow> (\<exists>r. detect_potential_fake_accounts ar g t = Inr r)) \<and>
   (\<forall>r. detect_potential_fake_accounts ar g t = Inr r \<longrightarrow>
      (let avg = fround ar (fsum ar (map (clustering_of ar g) (nodes g)) / of_nat (length (nodes g)));
           bound = fround ar (t * avg)
       in average_clustering ar g = Inr avg \<and>
          length r \<le> 10 \<and>
          (\<forall>x\<in>set r. fst x \<in> set (nodes g) \<and> snd x = clustering_of ar g (fst x) \<and> snd x < bound) \<and>
          sorted (map snd r) \<and>
          (\<forall>v\<in>set (nodes g). clustering_of ar g v < bound \<and> (v, clustering_of ar g v) \<notin> set r \<longrightarrow>
               length r = 10 \<and> (\<forall>y\<in>set r. snd y \<le> clustering_of ar g v))))"
proof (intro conjI impI allI)
  assume "nodes g \<noteq> []"
  then have "average_clustering ar g =
      Inr (fround ar (fsum ar (map (clustering_of ar g) (nodes g)) / of_nat (length (nodes g))))"
    by (rule average_clustering_nonempty)
  from detect_eq [OF this] show "\<exists>r. detect_potential_fake_accounts ar g t = Inr r"
    by blast
next
  fix r
  assume h: "detect_potential_fake_accounts ar g t = Inr r"
  define avg where
    "avg = fround ar (fsum ar (map (clustering_of ar g) (nodes g)) / of_nat (length (nodes g)))"
  define bound where "bound = fround ar (t * avg)"
  have ne: "nodes g \<noteq> []"
  proof
    assume "nodes g = []"
    from detect_empty [OF this, of ar t] h show False by simp
  qed
  have a: "average_clustering ar g = Inr avg"
    unfolding avg_def using ne by (rule average_clustering_nonempty)
  let ?fl = "filter (\<lambda>x. snd x < bound) (clustering ar g)"
  let ?s = "sort_key snd ?fl"
  from h detect_eq [OF a, of t] have r: "r = take 10 ?s" by (simp add: bound_def)
  have len: "length r \<le> 10" by (simp add: r)
  have sub: "set r \<subseteq> set ?fl"
    unfolding r using set_take_subset [of 10 ?s] by simp
  then have mem: "\<forall>x\<in>set r. fst x \<in> set (nodes g) \<and> snd x = clustering_of ar g (fst x) \<and> snd x < bound"
    by (auto simp: clustering_def)
  have so: "sorted (map snd ?s)" by (rule sorted_sort_key)
  then have asc: "sorted (map snd r)"
    unfolding r by (metis sorted_wrt_take take_map)
  have top: "\<forall>v\<in>set (nodes g). clustering_of ar g v < bound \<and> (v, clustering_of ar g v) \<notin> set r \<longrightarrow>
           length r = 10 \<and> (\<forall>y\<in>set r. snd y \<le> clustering_of ar g v)"
  proof (intro ballI impI)
    fix v assume v: "v \<in> set (nodes g)"
      and fl: "clustering_of ar g v < bound \<and> (v, clustering_of ar g v) \<notin> set r"
    from v fl have "(v, clustering_of ar g v) \<in> set ?s" by (auto simp: clustering_def)
    moreover from fl have "(v, clustering_of ar g v) \<notin> set (take 10 ?s)" by (simp add: r)
    ultimately show "length r = 10 \<and> (\<forall>y\<in>set r. snd y \<le> clustering_of ar g v)"
      using take_sorted_least [OF so, of "(v, clustering_of ar g v)" 10] by (simp add: r)
  qed
  from a len mem asc top
  show "let avg = fround ar (fsum ar (map (clustering_of ar g) (nodes g)) / of_nat (length (nodes g)));
            bound = fround ar (t * avg)
        in average_clustering ar g = Inr avg \<and>
           length r \<le> 10 \<and>
           (\<forall>x\<in>set r. fst x \<in> set (nodes g) \<and> snd x = clustering_of ar g (fst x) \<and> snd x < bound) \<and>
           sorted (map snd r) \<and>
           (\<forall>v\<in>set (nodes g). clustering_of ar g v < bound \<and> (v, clustering_of ar g v) \<notin> set r \<longrightarrow>
                length r = 10 \<and> (\<forall>y\<in>set r. snd y \<le> clustering_of ar g v))"
    unfolding Let_def avg_def [symmetric] bound_def [symmetric] by blast
qed

text \<open>
  The theorem at the input with the lines \<open>A B C D E\<close>, \<open>B C E\<close>, \<open>D F\<close>, \<open>E G\<close> and the
  threshold 1, in binary64. The coefficients are \<open>1/3, 2/3, 1, 0, 1/3, 0, 0\<close> rounded; their
  float sum is \<open>2.3333333333333335\<close> and the average \<open>0.33333333333333337\<close>, one unit in the
  last place above the float \<open>0.3333333333333333\<close> of \<open>A\<close> and \<open>E\<close>, which are returned
  after the three nodes of coefficient 0.
\<close>

theorem detect_potential_fake_accounts_flags_witness:
  "detect_potential_fake_accounts binary64
       (parse_adjacency_list ''A B C D E\<newline>B C E\<newline>D F\<newline>E G'') 1
     = Inr [(''D'', 0), (''F'', 0), (''G'', 0),
            (''A'', 6004799503160661 / 18014398509481984),
            (''E'', 6004799503160661 / 18014398509481984)] \<and>
   average_clustering binary64 (parse_adjacency_list ''A B C D E\<newline>B C E\<newline>D F\<newline>E G'')
     = Inr (3002399751580331 / 9007199254740992) \<and>
   clustering_of binary64 (parse_adjacency_list ''A B C D E\<newline>B C E\<newline>D F\<newline>E G'') ''A''
     < fround binary64 (1 * (3002399751580331 / 9007199254740992))"
proof -
  let ?g = "parse_adjacency_list ''A B C D E\<newline>B C E\<newline>D F\<newline>E G''"
  let ?c = "6004799503160661 / 18014398509481984 :: rat"
  let ?b = "6004799503160661 / 9007199254740992 :: rat"
  let ?avg = "3002399751580331 / 9007199254740992 :: rat"
  let ?r = "[(''D'', 0), (''F'', 0), (''G'', 0), (''A'', ?c), (''E'', ?c)]"
  have cl: "clustering binary64 ?g =
      [(''A'', ?c), (''B'', ?b), (''C'', 1), (''D'', 0), (''E'', ?c), (''F'', 0), (''G'', 0)]"
    by code_simp
  have av: "fround binary64 (fsum binary64 [?c, ?b, 1, 0, ?c, 0, 0] / 7) = ?avg"
    by code_simp
  have a: "average_clustering binary64 ?g = Inr ?avg"
    unfolding average_clustering_def cl Let_def using av by simp
  have b: "fround binary64 (1 * ?avg) = ?avg" by code_simp
  have d: "detect_potential_fake_accounts binary64 ?g 1 = Inr ?r"
    unfolding detect_eq [OF a] cl b by simp
  from detect_potential_fake_accounts_flags [of ?g binary64 1] d
  have t: "let avg = fround binary64 (fsum binary64 (map (clustering_of binary64 ?g) (nodes ?g))
                        / of_nat (length (nodes ?g)));
               bound = fround binary64 (1 * avg)
           in average_clustering binary64 ?g = Inr avg \<and>
              length ?r \<le> 10 \<and>
              (\<forall>x\<in>set ?r. fst x \<in> set (nodes ?g) \<and> snd x = clustering_of binary64 ?g (fst x) \<and>
                           snd x < bound) \<and>
              sorted (map snd ?r) \<and>
              (\<forall>v\<in>set (nodes ?g). clustering_of binary64 ?g v < bound \<and>
                   (v, clustering_of binary64 ?g v) \<notin> set ?r \<longrightarrow>
                   length ?r = 10 \<and> (\<forall>y\<in>set ?r. snd y \<le> clustering_of binary64 ?g v))"
    by blast
  have avg: "fround binary64 (fsum binary64 (map (clustering_of binary64 ?g) (nodes ?g))
                 / of_nat (length (nodes ?g))) = 3002399751580331 / 9007199254740992"
    using t a unfolding Let_def by simp
  from t have "\<forall>x\<in>set ?r. snd x = clustering_of binary64 ?g (fst x) \<and>
                 snd x < fround binary64 (1 * (3002399751580331 / 9007199254740992))"
    unfolding Let_def avg by blast
  then have "clustering_of binary64 ?g ''A''
               < fround binary64 (1 * (3002399751580331 / 9007199254740992))"
    by simp
  with d a show ?thesis by blast
qed

text \<open>
  Rounding decides which nodes are returned: the exact coefficient \<open>1/3\<close> of \<open>A\<close> and \<open>E\<close> is
  the exact average, and without rounding the same input gives the three nodes of
  coefficient 0 only.
\<close>

lemma detect_potential_fake_accounts_exact:
  "detect_potential_fake_accounts exact
       (parse_adjacency_list ''A B C D E\<newline>B C E\<newline>D F\<newline>E G'') 1
     = Inr [(''D'', 0), (''F'', 0), (''G'', 0)] \<and>
   average_clustering exact (parse_adjacency_list ''A B C D E\<newline>B C E\<newline>D F\<newline>E G'')
     = Inr (1 / 3) \<and>
   clustering_of exact (parse_adjacency_list ''A B C D E\<newline>B C E\<newline>D F\<newline>E G'') ''A'' = 1 / 3"
  by code_simp

section \<open>Well-formed graphs and the handshake lemma\<close>

lemma adj_notin_nodes: "x \<notin> set (nodes g) \<Longrightarrow> adj g x = []"
  by (simp add: adj_def map_of_notin_nodes)

lemma adj_add_edge:
  "adj (add_edge g u v) x =
     (let a = (if x = u \<and> v \<notin> set (adj g u) then adj g u @ [v] else adj g x)
      in if x = v \<and> u \<notin> set a then a @ [u] else a)"
  by (auto simp: add_edge_def adj_set_nbr adj_add_node nodes_add_node Let_def)

lemma wf_graph_Nil: "wf_graph []"
  by (simp add: wf_graph_def nodes_def)

lemma wf_graph_add_edge:
  assumes "wf_graph g"
  shows "wf_graph (add_edge g u v)"
proof -
  have d: "distinct (adj g x)" for x
    using assms by (cases "x \<in> set (nodes g)") (auto simp: wf_graph_def adj_notin_nodes)
  have s: "set (adj g x) \<subseteq> set (nodes g)" for x
    using assms by (cases "x \<in> set (nodes g)") (auto simp: wf_graph_def adj_notin_nodes)
  have sym: "w \<in> set (adj g x) \<Longrightarrow> x \<in> set (adj g w)" for x w
    using assms by (cases "x \<in> set (nodes g)") (auto simp: wf_graph_def adj_notin_nodes)
  have 1: "distinct (nodes (add_edge g u v))"
    using assms by (simp add: wf_graph_def distinct_nodes_add_edge)
  have 2: "distinct (adj (add_edge g u v) x)" for x
    using d [of x] d [of u] by (auto simp: adj_add_edge Let_def)
  have 3: "set (adj (add_edge g u v) x) \<subseteq> set (nodes (add_edge g u v))" for x
    using s [of x] by (auto simp: set_adj_add_edge set_nodes_add_edge)
  have 4: "w \<in> set (adj (add_edge g u v) x) \<Longrightarrow> x \<in> set (adj (add_edge g u v) w)" for x w
    using sym [of w x] by (auto simp: set_adj_add_edge split: if_splits)
  from 1 2 3 4 show ?thesis unfolding wf_graph_def by blast
qed

lemma wf_graph_friends: "wf_graph g \<Longrightarrow> wf_graph (foldl (\<lambda>gr f. add_edge gr u f) g fs)"
  by (induction fs arbitrary: g) (auto simp: wf_graph_add_edge)

lemma wf_graph_parse_line: "wf_graph g \<Longrightarrow> wf_graph (parse_line g line)"
  by (auto simp: parse_line_eq wf_graph_friends split: list.splits)

lemma wf_graph_parse_lines: "wf_graph g \<Longrightarrow> wf_graph (foldl parse_line g ls)"
  by (induction ls arbitrary: g) (auto simp: wf_graph_parse_line)

lemma wf_graph_parse: "wf_graph (parse_adjacency_list content)"
  by (simp add: parse_adjacency_list_def wf_graph_parse_lines wf_graph_Nil)

lemma sum_list_indicator: "(\<Sum>v\<leftarrow>xs. if P v then 1 else 0) = length (filter P xs)"
  by (induction xs) auto

lemma length_as_count:
  assumes "distinct xs" and "distinct ys" and "set ys \<subseteq> set xs"
  shows "length ys = (\<Sum>v\<leftarrow>xs. if v \<in> set ys then 1 else (0::nat))"
proof -
  have "distinct (filter (\<lambda>v. v \<in> set ys) xs)" using assms(1) by simp
  then have "length (filter (\<lambda>v. v \<in> set ys) xs) = card (set (filter (\<lambda>v. v \<in> set ys) xs))"
    by (rule distinct_card [symmetric])
  also have "set (filter (\<lambda>v. v \<in> set ys) xs) = set ys" using assms(3) by auto
  also have "card (set ys) = length ys" using assms(2) by (simp add: distinct_card)
  finally show ?thesis by (simp add: sum_list_indicator)
qed

lemma degree_as_count:
  assumes "wf_graph g" and "n \<in> set (nodes g)"
  shows "degree g n = (\<Sum>v\<leftarrow>nodes g. inc g n v) + inc g n n"
proof -
  have "length (adj g n) = (\<Sum>v\<leftarrow>nodes g. if v \<in> set (adj g n) then 1 else 0)"
    using assms by (intro length_as_count) (auto simp: wf_graph_def)
  then show ?thesis by (simp add: degree_def inc_def)
qed

lemma inc_sym: "wf_graph g \<Longrightarrow> inc g u v = inc g v u"
proof -
  assume wf: "wf_graph g"
  have "w \<in> set (adj g x) \<Longrightarrow> x \<in> set (adj g w)" for x w
    using wf by (cases "x \<in> set (nodes g)") (auto simp: wf_graph_def adj_notin_nodes)
  then show ?thesis by (auto simp: inc_def)
qed

lemma double_count:
  assumes "wf_graph g"
  shows "(\<Sum>u\<leftarrow>xs. (\<Sum>v\<leftarrow>xs. inc g u v) + inc g u u) = 2 * upper_count g xs"
proof (induction xs)
  case Nil
  then show ?case by simp
next
  case (Cons a xs)
  have "(\<Sum>u\<leftarrow>xs. (\<Sum>v\<leftarrow>a # xs. inc g u v) + inc g u u)
          = (\<Sum>u\<leftarrow>xs. inc g u a) + (\<Sum>u\<leftarrow>xs. (\<Sum>v\<leftarrow>xs. inc g u v) + inc g u u)"
    by (simp add: sum_list_addf add.assoc)
  also have "(\<Sum>u\<leftarrow>xs. inc g u a) = (\<Sum>u\<leftarrow>xs. inc g a u)"
    using inc_sym [OF assms] by simp
  finally show ?case using Cons.IH by simp
qed

lemma degree_sum:
  assumes "wf_graph g"
  shows "(\<Sum>n\<leftarrow>nodes g. degree g n) = 2 * upper_count g (nodes g)"
proof -
  have "(\<Sum>n\<leftarrow>nodes g. degree g n) = (\<Sum>n\<leftarrow>nodes g. (\<Sum>v\<leftarrow>nodes g. inc g n v) + inc g n n)"
    using degree_as_count [OF assms] by (intro arg_cong [where f = sum_list] map_cong) auto
  then show ?thesis by (simp add: double_count [OF assms])
qed

lemma adj_of_entry:
  "distinct (map fst g) \<Longrightarrow> (n, nbrs) \<in> set g \<Longrightarrow> adj g n = nbrs"
  by (simp add: adj_def)

lemma edges_from_count:
  assumes "wf_graph g"
  shows "g = pre @ rest \<Longrightarrow>
         length (edges_from (set (map fst pre)) rest) = upper_count g (map fst rest)"
proof (induction rest arbitrary: pre)
  case Nil
  then show ?case by simp
next
  case (Cons e rest)
  obtain n nbrs where e: "e = (n, nbrs)" by (cases e)
  have g: "g = pre @ (n, nbrs) # rest" using Cons.prems e by simp
  have dn: "distinct (map fst g)" using assms by (simp add: wf_graph_def nodes_def)
  have a: "adj g n = nbrs" using dn g by (intro adj_of_entry) auto
  have nin: "n \<in> set (nodes g)" using g by (simp add: nodes_def)
  have dnb: "distinct nbrs" and snb: "set nbrs \<subseteq> set (nodes g)"
    using assms nin a by (auto simp: wf_graph_def)
  let ?later = "n # map fst rest"
  let ?f = "filter (\<lambda>nbr. nbr \<notin> set (map fst pre)) nbrs"
  have dl: "distinct ?later" using dn g by auto
  have disj: "set (map fst pre) \<inter> set ?later = {}" using dn g by auto
  have nodes_split: "set (nodes g) = set (map fst pre) \<union> set ?later"
    using g by (auto simp: nodes_def)
  have sf: "set ?f \<subseteq> set ?later" using snb nodes_split by auto
  have "length ?f = (\<Sum>v\<leftarrow>?later. if v \<in> set ?f then 1 else 0)"
    using dl dnb sf by (intro length_as_count) auto
  also have "\<dots> = (\<Sum>v\<leftarrow>?later. inc g n v)"
    using disj a by (intro arg_cong [where f = sum_list] map_cong) (auto simp: inc_def)
  finally have cnt: "length ?f = (\<Sum>v\<leftarrow>?later. inc g n v)" .
  have "g = (pre @ [(n, nbrs)]) @ rest" using g by simp
  from Cons.IH [OF this]
  have ih: "length (edges_from (insert n (set (map fst pre))) rest) = upper_count g (map fst rest)"
    by simp
  show ?case using cnt ih by (simp add: e)
qed

lemma length_edges:
  assumes "wf_graph g"
  shows "length (edges g) = upper_count g (nodes g)"
  using edges_from_count [OF assms, of "[]" g] by (simp add: edges_def nodes_def)

lemma handshake:
  assumes "wf_graph g"
  shows "(\<Sum>n\<leftarrow>nodes g. degree g n) = 2 * length (edges g)"
  by (simp add: degree_sum [OF assms] length_edges [OF assms])

lemma number_of_edges_eq: "wf_graph g \<Longrightarrow> number_of_edges g = length (edges g)"
  by (simp add: number_of_edges_def handshake)

lemma sum_list_scaled: "(\<Sum>n\<leftarrow>xs. of_nat (f n) * c) = (of_nat (\<Sum>n\<leftarrow>xs. f n) :: rat) * c"
  by (induction xs) (simp_all add: algebra_simps)

lemma degree_centrality_small:
  "length (nodes g) \<le> 1 \<Longrightarrow> degree_centrality ar g = map (\<lambda>n. (n, 1)) (nodes g)"
  by (simp add: degree_centrality_def)

lemma degree_centrality_large:
  "2 \<le> length (nodes g) \<Longrightarrow>
   degree_centrality ar g =
     map (\<lambda>n. (n, fround ar (of_nat (degree g n) * fround ar (1 / fround ar (of_nat (length (nodes g)) - 1)))))
       (nodes g)"
  by (simp add: degree_centrality_def Let_def)

lemma sum_degree_centrality:
  assumes "2 \<le> length (nodes g)"
  shows "(\<Sum>x\<leftarrow>degree_centrality exact g. snd x) * (of_nat (length (nodes g)) - 1)
           = of_nat (\<Sum>n\<leftarrow>nodes g. degree g n)"
proof -
  let ?s = "1 / (of_nat (length (nodes g)) - 1) :: rat"
  have ne: "(of_nat (length (nodes g)) - 1 :: rat) \<noteq> 0" using assms by auto
  have "degree_centrality exact g = map (\<lambda>n. (n, of_nat (degree g n) * ?s)) (nodes g)"
    using assms by (simp add: degree_centrality_large exact_def)
  then have "(\<Sum>x\<leftarrow>degree_centrality exact g. snd x) = (\<Sum>n\<leftarrow>nodes g. of_nat (degree g n) * ?s)"
    by (simp add: comp_def)
  also have "\<dots> = of_nat (\<Sum>n\<leftarrow>nodes g. degree g n) * ?s"
    by (rule sum_list_scaled)
  finally show ?thesis using ne by simp
qed

lemma sum_degree_centrality_small:
  assumes "length (nodes g) \<le> 1"
  shows "(\<Sum>x\<leftarrow>degree_centrality ar g. snd x) * (of_nat (length (nodes g)) - 1) = 0"
proof (cases "nodes g")
  case Nil
  then show ?thesis by (simp add: degree_centrality_def)
next
  case (Cons v vs)
  with assms have "vs = []" by simp
  with Cons show ?thesis by (simp add: degree_centrality_def)
qed

text \<open>
  Claim C9 states the handshake identity for the degree centralities of every graph. It
  fails in two ways. \<open>nx.degree_centrality\<close> gives the only node of a one-node graph the
  score 1 and the factor \<open>|V| - 1\<close> is 0 there, while the parser's one-node graphs all carry a
  self-loop, which is one edge: for the input \<open>A A\<close> the left side is 0 and the right side
  is 2. And the scores are floats: on the path of the input lines \<open>A B\<close>, \<open>B C\<close>, \<open>C D\<close> they
  are \<open>1/3\<close> and \<open>2/3\<close> rounded down, so that their exact sum times 3 is below 6, and so is
  the float \<open>sum(scores) * 3\<close>, which is \<open>5.999999999999999\<close>.
\<close>

theorem degree_centrality_handshake_counterexample:
  "(\<Sum>x\<leftarrow>degree_centrality binary64 (parse_adjacency_list ''A A''). snd x)
      * (of_nat (length (nodes (parse_adjacency_list ''A A''))) - 1)
     \<noteq> 2 * of_nat (number_of_edges (parse_adjacency_list ''A A'')) \<and>
   (\<Sum>x\<leftarrow>degree_centrality binary64 (parse_adjacency_list ''A B\<newline>B C\<newline>C D''). snd x)
      * (of_nat (length (nodes (parse_adjacency_list ''A B\<newline>B C\<newline>C D''))) - 1)
     \<noteq> 2 * of_nat (number_of_edges (parse_adjacency_list ''A B\<newline>B C\<newline>C D'')) \<and>
   fround binary64
     (fsum binary64 (map snd (degree_centrality binary64 (parse_adjacency_list ''A B\<newline>B C\<newline>C D'')))
      * (of_nat (length (nodes (parse_adjacency_list ''A B\<newline>B C\<newline>C D''))) - 1))
     \<noteq> 2 * of_nat (number_of_edges (parse_adjacency_list ''A B\<newline>B C\<newline>C D''))"
proof -
  let ?a = "parse_adjacency_list ''A A''"
  let ?p = "parse_adjacency_list ''A B\<newline>B C\<newline>C D''"
  let ?f = "6004799503160661 / 18014398509481984 :: rat"
  let ?h = "6004799503160661 / 9007199254740992 :: rat"
  have a: "map snd (degree_centrality binary64 ?a) = [1]" by code_simp
  have na: "length (nodes ?a) = 1" by code_simp
  have ea: "number_of_edges ?a = 1" by code_simp
  have p: "map snd (degree_centrality binary64 ?p) = [?f, ?h, ?h, ?f]" by code_simp
  have np: "length (nodes ?p) = 4" by code_simp
  have ep: "number_of_edges ?p = 3" by code_simp
  have fs: "fround binary64 (fsum binary64 [?f, ?h, ?h, ?f] * 3) = 6755399441055743 / 1125899906842624"
    by code_simp
  have sa: "(\<Sum>x\<leftarrow>degree_centrality binary64 ?a. snd x) = sum_list (map snd (degree_centrality binary64 ?a))"
    by simp
  have sp: "(\<Sum>x\<leftarrow>degree_centrality binary64 ?p. snd x) = sum_list (map snd (degree_centrality binary64 ?p))"
    by simp
  have 1: "(\<Sum>x\<leftarrow>degree_centrality binary64 ?a. snd x) * (of_nat (length (nodes ?a)) - 1)
             \<noteq> 2 * of_nat (number_of_edges ?a)"
    unfolding sa a na ea by simp
  have 2: "(\<Sum>x\<leftarrow>degree_centrality binary64 ?p. snd x) * (of_nat (length (nodes ?p)) - 1)
             \<noteq> 2 * of_nat (number_of_edges ?p)"
    unfolding sp p np ep by simp
  have 3: "fround binary64 (fsum binary64 (map snd (degree_centrality binary64 ?p))
             * (of_nat (length (nodes ?p)) - 1)) \<noteq> 2 * of_nat (number_of_edges ?p)"
    unfolding p np ep using fs by simp
  from 1 2 3 show ?thesis by blast
qed

text \<open>
  C9 as the code has it, for every well-formed graph and whatever the arithmetic rounds to.
  The degrees add up to twice the number of edges, where a self-loop adds two to its node's
  degree and is one edge, and the number of edges is the number of pairs that \<open>G.edges()\<close>
  reports. In a graph with at least two nodes the degree centrality of a node is the float
  product of its degree with the float \<open>1.0 / (|V| - 1.0)\<close>; without rounding, the sum of
  these scores times \<open>|V| - 1\<close> is twice the number of edges. In a graph with at most one
  node every score is 1 and the sum of the scores times \<open>|V| - 1\<close> is 0.
\<close>

theorem degree_centrality_handshake:
  assumes "wf_graph g"
  shows "(\<Sum>v\<leftarrow>nodes g. degree g v) = 2 * number_of_edges g \<and>
         number_of_edges g = length (edges g) \<and>
         (2 \<le> length (nodes g) \<longrightarrow>
            degree_centrality ar g =
              map (\<lambda>v. (v, fround ar (of_nat (degree g v)
                                      * fround ar (1 / fround ar (of_nat (length (nodes g)) - 1)))))
                (nodes g) \<and>
            (\<Sum>x\<leftarrow>degree_centrality exact g. snd x) * (of_nat (length (nodes g)) - 1)
              = 2 * of_nat (number_of_edges g)) \<and>
         (length (nodes g) \<le> 1 \<longrightarrow>
            degree_centrality ar g = map (\<lambda>v. (v, 1)) (nodes g) \<and>
            (\<Sum>x\<leftarrow>degree_centrality ar g. snd x) * (of_nat (length (nodes g)) - 1) = 0)"
proof (intro conjI impI)
  show e: "number_of_edges g = length (edges g)"
    using assms by (rule number_of_edges_eq)
  show "(\<Sum>v\<leftarrow>nodes g. degree g v) = 2 * number_of_edges g"
    unfolding e using assms by (rule handshake)
next
  assume n: "2 \<le> length (nodes g)"
  then show "degree_centrality ar g =
      map (\<lambda>v. (v, fround ar (of_nat (degree g v) * fround ar (1 / fround ar (of_nat (length (nodes g)) - 1)))))
        (nodes g)"
    by (rule degree_centrality_large)
  show "(\<Sum>x\<leftarrow>degree_centrality exact g. snd x) * (of_nat (length (nodes g)) - 1)
          = 2 * of_nat (number_of_edges g)"
    by (simp add: sum_degree_centrality [OF n] handshake [OF assms] number_of_edges_eq [OF assms])
next
  assume n: "length (nodes g) \<le> 1"
  then show "degree_centrality ar g = map (\<lambda>v. (v, 1)) (nodes g)"
    by (rule degree_centrality_small)
  from n show "(\<Sum>x\<leftarrow>degree_centrality ar g. snd x) * (of_nat (length (nodes g)) - 1) = 0"
    by (rule sum_degree_centrality_small)
qed

theorem degree_centrality_handshake_witness:
  "(\<Sum>v\<leftarrow>[''A'', ''B'', ''C'', ''D'']. degree (parse_adjacency_list ''A B\<newline>B C\<newline>C A\<newline>D A'') v) = 2 * 4 \<and>
   length (edges (parse_adjacency_list ''A B\<newline>B C\<newline>C A\<newline>D A'')) = 4 \<and>
   (\<Sum>x\<leftarrow>degree_centrality exact (parse_adjacency_list ''A B\<newline>B C\<newline>C A\<newline>D A''). snd x) * (4 - 1) = 2 * 4 \<and>
   degree_centrality binary64 (parse_adjacency_list ''A A'') = [(''A'', 1)]"
proof -
  let ?g = "parse_adjacency_list ''A B\<newline>B C\<newline>C A\<newline>D A''"
  let ?a = "parse_adjacency_list ''A A''"
  have n: "nodes ?g = [''A'', ''B'', ''C'', ''D'']" by code_simp
  have e: "number_of_edges ?g = 4" by code_simp
  have n2: "2 \<le> length (nodes ?g)" by (simp add: n)
  have na: "nodes ?a = [''A'']" by code_simp
  have n1: "length (nodes ?a) \<le> 1" by (simp add: na)
  from degree_centrality_handshake [OF wf_graph_parse, of "''A B\<newline>B C\<newline>C A\<newline>D A''" exact] n2
  have "(\<Sum>v\<leftarrow>nodes ?g. degree ?g v) = 2 * number_of_edges ?g \<and>
        number_of_edges ?g = length (edges ?g) \<and>
        (\<Sum>x\<leftarrow>degree_centrality exact ?g. snd x) * (of_nat (length (nodes ?g)) - 1)
          = 2 * of_nat (number_of_edges ?g)"
    by blast
  then have 1: "(\<Sum>v\<leftarrow>[''A'', ''B'', ''C'', ''D'']. degree ?g v) = 2 * 4 \<and>
        length (edges ?g) = 4 \<and>
        (\<Sum>x\<leftarrow>degree_centrality exact ?g. snd x) * (4 - 1) = 2 * 4"
    unfolding n e by simp
  from degree_centrality_handshake [OF wf_graph_parse, of "''A A''" binary64] n1
  have "degree_centrality binary64 ?a = map (\<lambda>v. (v, 1)) (nodes ?a)"
    by blast
  then have 2: "degree_centrality binary64 ?a = [(''A'', 1)]"
    unfolding na by simp
  from 1 2 show ?thesis by blast
qed

section \<open>Correctness of the breadth-first search\<close>

inductive_cases walk_0E: "walk g s 0 u"
inductive_cases walk_SucE: "walk g s (Suc k) u"

lemma layer_0: "layer g s 0 = {s}"
  by (auto simp: layer_def intro: walk_0 elim: walk_0E)

lemma ball_0: "ball g s 0 = {s}"
  by (auto simp: ball_def intro: walk_0 elim: walk_0E)

lemma layer_iff1: "u \<in> layer g s k \<Longrightarrow> u \<in> reachable g s \<and> distance g s u = k"
proof -
  assume "u \<in> layer g s k"
  then have w: "walk g s k u" and m: "\<forall>j<k. \<not> walk g s j u" by (simp_all add: layer_def)
  have le: "k \<le> y" if "walk g s y u" for y
    using m that not_le_imp_less by blast
  have "(LEAST j. walk g s j u) = k"
    using w le by (rule Least_equality)
  with w show "u \<in> reachable g s \<and> distance g s u = k"
    unfolding reachable_def distance_def by blast
qed

lemma layer_iff2: "u \<in> reachable g s \<and> distance g s u = k \<Longrightarrow> u \<in> layer g s k"
proof -
  assume a: "u \<in> reachable g s \<and> distance g s u = k"
  then obtain j where j: "walk g s j u" unfolding reachable_def by blast
  from j have "walk g s (LEAST j. walk g s j u) u" by (rule LeastI)
  moreover have "\<forall>i<(LEAST j. walk g s j u). \<not> walk g s i u"
    using not_less_Least by blast
  moreover from a have "(LEAST j. walk g s j u) = k" unfolding distance_def by (rule conjunct2)
  ultimately show "u \<in> layer g s k" unfolding layer_def by blast
qed

lemma layer_iff: "u \<in> layer g s k \<longleftrightarrow> u \<in> reachable g s \<and> distance g s u = k"
  using layer_iff1 layer_iff2 by blast

lemma layers_disjoint: "u \<in> layer g s i \<Longrightarrow> u \<in> layer g s j \<Longrightarrow> i = j"
  using layer_iff1 [of u g s i] layer_iff1 [of u g s j] by simp

lemma ball_layers: "ball g s k = (\<Union>j\<le>k. layer g s j)"
proof
  show "ball g s k \<subseteq> (\<Union>j\<le>k. layer g s j)"
  proof
    fix u assume "u \<in> ball g s k"
    then obtain j where j: "j \<le> k" "walk g s j u" by (auto simp: ball_def)
    then have r: "u \<in> reachable g s" by (auto simp: reachable_def)
    have "distance g s u \<le> j" unfolding distance_def using j(2) by (rule Least_le)
    with j(1) r show "u \<in> (\<Union>j\<le>k. layer g s j)" by (auto simp: layer_iff)
  qed
  show "(\<Union>j\<le>k. layer g s j) \<subseteq> ball g s k"
    by (auto simp: ball_def layer_def)
qed

lemma ball_Suc: "ball g s (Suc k) = ball g s k \<union> layer g s (Suc k)"
  by (auto simp: ball_layers atMost_Suc)

lemma layer_Suc: "layer g s (Suc k) = (\<Union>v\<in>layer g s k. set (adj g v)) - ball g s k"
proof
  show "layer g s (Suc k) \<subseteq> (\<Union>v\<in>layer g s k. set (adj g v)) - ball g s k"
  proof
    fix w assume w: "w \<in> layer g s (Suc k)"
    then have wk: "walk g s (Suc k) w" and m: "\<forall>j<Suc k. \<not> walk g s j w"
      by (auto simp: layer_def)
    from wk obtain v where v: "walk g s k v" "w \<in> set (adj g v)" by (auto elim: walk_SucE)
    have "\<forall>j<k. \<not> walk g s j v"
    proof (intro allI impI notI)
      fix j assume "j < k" "walk g s j v"
      then have "walk g s (Suc j) w" "Suc j < Suc k" using v(2) by (auto intro: walk_Suc)
      with m show False by blast
    qed
    with v have "v \<in> layer g s k" by (simp add: layer_def)
    moreover have "w \<notin> ball g s k" using m by (auto simp: ball_def)
    ultimately show "w \<in> (\<Union>v\<in>layer g s k. set (adj g v)) - ball g s k" using v(2) by blast
  qed
  show "(\<Union>v\<in>layer g s k. set (adj g v)) - ball g s k \<subseteq> layer g s (Suc k)"
  proof
    fix w assume "w \<in> (\<Union>v\<in>layer g s k. set (adj g v)) - ball g s k"
    then obtain v where v: "v \<in> layer g s k" "w \<in> set (adj g v)" and nb: "w \<notin> ball g s k"
      by blast
    from v have "walk g s (Suc k) w" by (auto simp: layer_def intro: walk_Suc)
    moreover from nb have "\<forall>j<Suc k. \<not> walk g s j w" by (auto simp: ball_def)
    ultimately show "w \<in> layer g s (Suc k)" by (simp add: layer_def)
  qed
qed

lemma layer_empty_later: "layer g s k = {} \<Longrightarrow> k \<le> j \<Longrightarrow> layer g s j = {}"
proof (induction j)
  case 0
  then show ?case by simp
next
  case (Suc j)
  show ?case
  proof (cases "k = Suc j")
    case True
    with Suc.prems show ?thesis by simp
  next
    case False
    with Suc.prems have "k \<le> j" by simp
    with Suc have "layer g s j = {}" by simp
    then show ?thesis by (simp add: layer_Suc)
  qed
qed

lemma walk_in_nodes:
  assumes "wf_graph g" and "s \<in> set (nodes g)"
  shows "walk g s k u \<Longrightarrow> u \<in> set (nodes g)"
proof (induction rule: walk.induct)
  case walk_0
  then show ?case by (rule assms(2))
next
  case (walk_Suc k v w)
  with assms(1) show ?case by (auto simp: wf_graph_def)
qed

lemma reachable_nodes: "wf_graph g \<Longrightarrow> s \<in> set (nodes g) \<Longrightarrow> reachable g s \<subseteq> set (nodes g)"
  by (auto simp: reachable_def dest: walk_in_nodes)

lemma bfs_levels_correct:
  "wf_graph g \<Longrightarrow> s \<in> set (nodes g) \<Longrightarrow> seen = ball g s k \<Longrightarrow> set fr = layer g s k \<Longrightarrow>
     set (bfs_levels g seen fr k) = {(u, j). k < j \<and> u \<in> layer g s j} \<and>
     distinct (map fst (bfs_levels g seen fr k))"
proof (induction g seen fr k rule: bfs_levels.induct)
  case (1 g seen fr k)
  note wf = "1.prems"(1) and s = "1.prems"(2)
  note seen = "1.prems"(3) and fr = "1.prems"(4)
  show ?case
  proof (cases "fr = []")
    case True
    with fr have "layer g s k = {}" by simp
    then have "layer g s j = {}" if "k < j" for j
      using layer_empty_later [of g s k j] that by simp
    then have "{(u, j). k < j \<and> u \<in> layer g s j} = {}" by auto
    with True show ?thesis by (simp add: bfs_levels_Nil)
  next
    case False
    obtain seen' nxt where e: "expand g seen fr = (seen', nxt)" by (cases "expand g seen fr")
    note p = expand_props [OF e]
    have nxt: "set nxt = layer g s (Suc k)"
      using p(2) seen fr by (simp add: layer_Suc)
    have seen': "seen' = ball g s (Suc k)"
      using p(1) nxt seen by (simp add: ball_Suc)
    have here: "set (map (\<lambda>w. (w, k + 1)) nxt) = {(u, j). j = Suc k \<and> u \<in> layer g s j}"
      using nxt by auto
    have dhere: "distinct (map fst (map (\<lambda>w. (w, k + 1)) nxt))"
      using p(3) by (simp add: comp_def)
    have split: "{(u, j). k < j \<and> u \<in> layer g s j} =
        {(u, j). j = Suc k \<and> u \<in> layer g s j} \<union> {(u, j). Suc k < j \<and> u \<in> layer g s j}"
      by auto
    show ?thesis
    proof (cases "card seen' = length (nodes g)")
      case True
      have bn: "ball g s (Suc k) \<subseteq> set (nodes g)"
        unfolding ball_def using walk_in_nodes [OF wf s] by blast
      have "card (set (nodes g)) = length (nodes g)"
        using wf by (simp add: wf_graph_def distinct_card)
      with True seen' have "card (ball g s (Suc k)) = card (set (nodes g))" by simp
      with bn have full: "ball g s (Suc k) = set (nodes g)"
        by (intro card_subset_eq) auto
      have "layer g s j = {}" if "Suc k < j" for j
      proof (rule ccontr)
        assume "layer g s j \<noteq> {}"
        then obtain u where u: "u \<in> layer g s j" by blast
        then have "u \<in> set (nodes g)"
          unfolding layer_def using walk_in_nodes [OF wf s] by blast
        with full have "u \<in> ball g s (Suc k)" by simp
        then obtain i where "i \<le> Suc k" "u \<in> layer g s i" by (auto simp: ball_layers)
        with u that show False using layers_disjoint [of u g s i j] by simp
      qed
      then have emp: "{(u, j). Suc k < j \<and> u \<in> layer g s j} = {}" by auto
      have res: "bfs_levels g seen fr k = map (\<lambda>w. (w, k + 1)) nxt"
        using bfs_levels_step [OF False e, of k] True by simp
      have "set (bfs_levels g seen fr k) = {(u, j). k < j \<and> u \<in> layer g s j}"
        unfolding res split emp using here by simp
      moreover have "distinct (map fst (bfs_levels g seen fr k))"
        unfolding res using dhere by simp
      ultimately show ?thesis by blast
    next
      case ne: False
      have ih: "set (bfs_levels g seen' nxt (k + 1)) = {(u, j). k + 1 < j \<and> u \<in> layer g s j} \<and>
         distinct (map fst (bfs_levels g seen' nxt (k + 1)))"
        using "1.IH" [OF False e [symmetric] ne wf s] seen' nxt by simp
      have disj: "set nxt \<inter> fst ` set (bfs_levels g seen' nxt (k + 1)) = {}"
      proof -
        have "u \<in> layer g s (Suc k) \<Longrightarrow> u \<in> layer g s j \<Longrightarrow> Suc k < j \<Longrightarrow> False" for u j
          using layers_disjoint [of u g s "Suc k" j] by simp
        then show ?thesis using ih nxt by (auto simp: image_iff)
      qed
      have fstmap: "map fst (map (\<lambda>w. (w, k + 1)) nxt) = nxt"
        by (induction nxt) simp_all
      have res: "bfs_levels g seen fr k =
          map (\<lambda>w. (w, k + 1)) nxt @ bfs_levels g seen' nxt (k + 1)"
        using bfs_levels_step [OF False e, of k] ne by simp
      have "set (bfs_levels g seen fr k) = {(u, j). k < j \<and> u \<in> layer g s j}"
        unfolding res split using here ih by auto
      moreover have "distinct (map fst (bfs_levels g seen fr k))"
        unfolding res map_append fstmap using p(3) ih disj by simp
      ultimately show ?thesis by blast
    qed
  qed
qed

lemma sssp_correct:
  assumes wf: "wf_graph g" and s: "s \<in> set (nodes g)"
  shows "set (single_source_shortest_path_length g s) = {(u, j). u \<in> layer g s j}"
    and "distinct (map fst (single_source_shortest_path_length g s))"
proof -
  have b: "set (bfs_levels g {s} [s] 0) = {(u, j). 0 < j \<and> u \<in> layer g s j} \<and>
         distinct (map fst (bfs_levels g {s} [s] 0))"
    using bfs_levels_correct [OF wf s, of "{s}" 0 "[s]"] by (simp add: ball_0 layer_0)
  have "{(u, j). u \<in> layer g s j} = insert (s, 0) {(u, j). 0 < j \<and> u \<in> layer g s j}"
  proof (intro set_eqI iffI)
    fix x assume x: "x \<in> {(u, j). u \<in> layer g s j}"
    obtain u j where uj: "x = (u, j)" by (cases x)
    with x have l: "u \<in> layer g s j" by simp
    show "x \<in> insert (s, 0) {(u, j). 0 < j \<and> u \<in> layer g s j}"
    proof (cases j)
      case 0
      with l have "u = s" by (simp add: layer_0)
      with 0 uj show ?thesis by simp
    next
      case (Suc n)
      with l uj show ?thesis by simp
    qed
  next
    fix x assume "x \<in> insert (s, 0) {(u, j). 0 < j \<and> u \<in> layer g s j}"
    then show "x \<in> {(u, j). u \<in> layer g s j}"
      using layer_0 [of g s] by auto
  qed
  with b show "set (single_source_shortest_path_length g s) = {(u, j). u \<in> layer g s j}"
    by (simp add: single_source_shortest_path_length_def)
  have "s \<notin> fst ` set (bfs_levels g {s} [s] 0)"
  proof
    assume "s \<in> fst ` set (bfs_levels g {s} [s] 0)"
    then obtain j where "(s, j) \<in> set (bfs_levels g {s} [s] 0)" by force
    with b have "0 < j" "s \<in> layer g s j" by simp_all
    moreover have "s \<in> layer g s 0" by (simp add: layer_0)
    ultimately show False using layers_disjoint [of s g s 0 j] by simp
  qed
  with b show "distinct (map fst (single_source_shortest_path_length g s))"
    by (simp add: single_source_shortest_path_length_def)
qed

lemma sssp_set:
  assumes "wf_graph g" and "s \<in> set (nodes g)"
  shows "set (single_source_shortest_path_length g s) = (\<lambda>u. (u, distance g s u)) ` reachable g s"
proof (intro set_eqI iffI)
  fix x assume "x \<in> set (single_source_shortest_path_length g s)"
  then have x: "x \<in> {(u, j). u \<in> layer g s j}" by (simp only: sssp_correct(1) [OF assms])
  obtain u j where uj: "x = (u, j)" by (cases x)
  with x have "u \<in> layer g s j" by simp
  then have "u \<in> reachable g s \<and> distance g s u = j" by (rule layer_iff1)
  with uj show "x \<in> (\<lambda>u. (u, distance g s u)) ` reachable g s" by blast
next
  fix x assume "x \<in> (\<lambda>u. (u, distance g s u)) ` reachable g s"
  then obtain u where u: "u \<in> reachable g s" "x = (u, distance g s u)" by blast
  then have "u \<in> layer g s (distance g s u)" by (intro layer_iff2) simp
  with u(2) have "x \<in> {(u, j). u \<in> layer g s j}" by simp
  then show "x \<in> set (single_source_shortest_path_length g s)"
    by (simp only: sssp_correct(1) [OF assms])
qed

lemma sssp_nodes:
  assumes "wf_graph g" and "s \<in> set (nodes g)"
  shows "set (map fst (single_source_shortest_path_length g s)) = reachable g s"
proof -
  have "set (map fst (single_source_shortest_path_length g s)) =
      fst ` ((\<lambda>u. (u, distance g s u)) ` reachable g s)"
    by (simp only: set_map sssp_set [OF assms])
  also have "\<dots> = reachable g s" by (simp add: image_image)
  finally show ?thesis .
qed

lemma sssp_length:
  assumes "wf_graph g" and "s \<in> set (nodes g)"
  shows "length (single_source_shortest_path_length g s) = card (reachable g s)"
proof -
  let ?sp = "single_source_shortest_path_length g s"
  have "card (set (map fst ?sp)) = length (map fst ?sp)"
    using sssp_correct(2) [OF assms] by (rule distinct_card)
  then show ?thesis by (simp only: sssp_nodes [OF assms] length_map)
qed

lemma sssp_total:
  assumes "wf_graph g" and "s \<in> set (nodes g)"
  shows "sum_list (map snd (single_source_shortest_path_length g s)) =
           (\<Sum>u\<in>reachable g s. distance g s u)"
proof -
  let ?sp = "single_source_shortest_path_length g s"
  have "distinct (map fst ?sp)" by (rule sssp_correct(2) [OF assms])
  then have d: "distinct ?sp" by (simp add: distinct_map)
  have "sum_list (map snd ?sp) = sum snd (set ?sp)"
    using d by (rule sum_list_distinct_conv_sum_set)
  also have "\<dots> = sum snd ((\<lambda>u. (u, distance g s u)) ` reachable g s)"
    by (simp only: sssp_set [OF assms])
  also have "\<dots> = (\<Sum>u\<in>reachable g s. distance g s u)"
  proof -
    have "inj_on (\<lambda>u. (u, distance g s u)) (reachable g s)" by (rule inj_onI) simp
    then show ?thesis by (simp add: sum.reindex comp_def)
  qed
  finally show ?thesis .
qed

section \<open>Closeness centrality\<close>

lemma reachable_self: "s \<in> reachable g s"
  unfolding reachable_def using walk_0 [of g s] by blast

lemma finite_reachable: "wf_graph g \<Longrightarrow> s \<in> set (nodes g) \<Longrightarrow> finite (reachable g s)"
  using reachable_nodes [of g s] finite_set [of "nodes g"] by (rule finite_subset)

lemma distance_self: "distance g s s = 0"
  using layer_iff1 [of s g s 0] by (simp add: layer_0)

lemma distance_0_imp: "u \<in> reachable g s \<Longrightarrow> distance g s u = 0 \<Longrightarrow> u = s"
  using layer_iff2 [of u g s 0] by (simp add: layer_0)

lemma total_pos_iff:
  assumes "wf_graph g" and "s \<in> set (nodes g)"
  shows "0 < (\<Sum>u\<in>reachable g s. distance g s u) \<longleftrightarrow> card (reachable g s) \<noteq> 1"
proof
  assume "0 < (\<Sum>u\<in>reachable g s. distance g s u)"
  then have ne: "(\<Sum>u\<in>reachable g s. distance g s u) \<noteq> 0" by simp
  have "\<exists>u\<in>reachable g s. distance g s u \<noteq> 0"
  proof (rule ccontr)
    assume "\<not> (\<exists>u\<in>reachable g s. distance g s u \<noteq> 0)"
    then have "\<forall>x\<in>reachable g s. distance g s x = 0" by blast
    then have "(\<Sum>u\<in>reachable g s. distance g s u) = 0" by (rule sum.neutral)
    with ne show False by simp
  qed
  then obtain u where u: "u \<in> reachable g s" "distance g s u \<noteq> 0" by blast
  then have "u \<noteq> s" using distance_self [of g s] by auto
  show "card (reachable g s) \<noteq> 1"
  proof
    assume "card (reachable g s) = 1"
    then obtain x where "reachable g s = {x}" by (auto simp: card_1_singleton_iff)
    with u(1) reachable_self [of s g] have "u = s" by simp
    with \<open>u \<noteq> s\<close> show False by simp
  qed
next
  assume c: "card (reachable g s) \<noteq> 1"
  have fin: "finite (reachable g s)" by (rule finite_reachable [OF assms])
  have "\<exists>u\<in>reachable g s. u \<noteq> s"
  proof (rule ccontr)
    assume "\<not> (\<exists>u\<in>reachable g s. u \<noteq> s)"
    then have "reachable g s = {s}" using reachable_self [of s g] by blast
    then have "card (reachable g s) = 1" by simp
    with c show False by simp
  qed
  then obtain u where u: "u \<in> reachable g s" "u \<noteq> s" by blast
  then have "distance g s u \<noteq> 0" using distance_0_imp [of u g s] by blast
  then have "0 < distance g s u" by simp
  also have "distance g s u \<le> (\<Sum>u\<in>reachable g s. distance g s u)"
    using fin u(1) by (intro member_le_sum) simp_all
  finally show "0 < (\<Sum>u\<in>reachable g s. distance g s u)" .
qed

lemma card_reachable_le:
  assumes "wf_graph g" and "s \<in> set (nodes g)"
  shows "card (reachable g s) \<le> length (nodes g)"
proof -
  have "card (reachable g s) \<le> card (set (nodes g))"
    using reachable_nodes [OF assms] by (intro card_mono) simp_all
  also have "\<dots> \<le> length (nodes g)" by (rule card_length)
  finally show ?thesis .
qed

lemma card_reachable_pos:
  assumes "wf_graph g" and "s \<in> set (nodes g)"
  shows "0 < card (reachable g s)"
  using finite_reachable [OF assms] reachable_self [of s g] by (auto simp: card_gt_0_iff)

lemma closeness_of_eq:
  assumes "wf_graph g" and "v \<in> set (nodes g)"
  shows "closeness_of g v =
     (if card (reachable g v) = 1 then 0
      else ((of_nat (card (reachable g v)) - 1) / of_nat (\<Sum>u\<in>reachable g v. distance g v u)) *
           ((of_nat (card (reachable g v)) - 1) / (of_nat (length (nodes g)) - 1)))"
proof -
  let ?sp = "single_source_shortest_path_length g v"
  have len: "length ?sp = card (reachable g v)" by (rule sssp_length [OF assms])
  have tot: "sum_list (map snd ?sp) = (\<Sum>u\<in>reachable g v. distance g v u)"
    by (rule sssp_total [OF assms])
  have unf: "closeness_of g v =
      (if 0 < (\<Sum>u\<in>reachable g v. distance g v u) \<and> 1 < length (nodes g)
       then ((of_nat (card (reachable g v)) - 1) / of_nat (\<Sum>u\<in>reachable g v. distance g v u)) *
            ((of_nat (card (reachable g v)) - 1) / (of_nat (length (nodes g)) - 1))
       else 0)"
    unfolding closeness_of_def Let_def len tot by (rule refl)
  show ?thesis
  proof (cases "card (reachable g v) = 1")
    case True
    then have "\<not> 0 < (\<Sum>u\<in>reachable g v. distance g v u)"
      using total_pos_iff [OF assms] by simp
    with True show ?thesis unfolding unf by simp
  next
    case False
    then have t: "0 < (\<Sum>u\<in>reachable g v. distance g v u)"
      using total_pos_iff [OF assms] by simp
    from False card_reachable_pos [OF assms] card_reachable_le [OF assms]
    have "1 < length (nodes g)" by linarith
    with t False show ?thesis unfolding unf by simp
  qed
qed

lemma map_of_tabulate: "v \<in> set xs \<Longrightarrow> map_of (map (\<lambda>n. (n, f n)) xs) v = Some (f v)"
  by (induction xs) auto

text \<open>
  Claim C2 gives closeness as \<open>(r - 1) / \<Sum> d(v, u)\<close> for every graph. The program calls
  \<open>nx.closeness_centrality(graph)\<close> with the library's defaults, which scale that quotient by
  \<open>(r - 1) / (|V| - 1)\<close>: in the graph of the two edges \<open>A-B\<close> and \<open>C-D\<close> node \<open>A\<close> reaches two
  nodes at total distance 1, the claim's value is 1, and the program's value is \<open>1/3\<close>.
\<close>

theorem closeness_centrality_counterexample:
  "map_of (closeness_centrality (parse_adjacency_list ''A B\<newline>C D'')) ''A'' = Some (1 / 3) \<and>
   (of_nat (card (reachable (parse_adjacency_list ''A B\<newline>C D'') ''A'')) - 1)
     / of_nat (\<Sum>u\<in>reachable (parse_adjacency_list ''A B\<newline>C D'') ''A''.
                 distance (parse_adjacency_list ''A B\<newline>C D'') ''A'' u) = (1::rat)"
proof -
  let ?g = "parse_adjacency_list ''A B\<newline>C D''"
  have wf: "wf_graph ?g" by (rule wf_graph_parse)
  have n: "''A'' \<in> set (nodes ?g)" by code_simp
  have sp: "single_source_shortest_path_length ?g ''A'' = [(''A'', 0), (''B'', 1)]"
    by code_simp
  have c: "card (reachable ?g ''A'') = 2"
    using sssp_length [OF wf n] unfolding sp by simp
  have t: "(\<Sum>u\<in>reachable ?g ''A''. distance ?g ''A'' u) = 1"
    using sssp_total [OF wf n] unfolding sp by simp
  have m: "map_of (closeness_centrality ?g) ''A'' = Some (1 / 3)" by code_simp
  show ?thesis unfolding c t using m by simp
qed

text \<open>
  C2 as the code has it: for a node \<open>v\<close> of a well-formed graph, with \<open>r\<close> the number of nodes
  reachable from \<open>v\<close> (itself included) and \<open>d\<close> the shortest-path distance, closeness is 0
  when \<open>r = 1\<close> and otherwise \<open>(r - 1) / \<Sum> d(v, u)\<close> times \<open>(r - 1) / (|V| - 1)\<close>; where every
  node is reachable from \<open>v\<close> the second factor is 1 and the value is the claim's.
\<close>

theorem closeness_centrality_formula:
  assumes "wf_graph g" and "v \<in> set (nodes g)"
  shows "map_of (closeness_centrality g) v =
           Some (if card (reachable g v) = 1 then 0
                 else ((of_nat (card (reachable g v)) - 1)
                         / of_nat (\<Sum>u\<in>reachable g v. distance g v u)) *
                      ((of_nat (card (reachable g v)) - 1) / (of_nat (length (nodes g)) - 1))) \<and>
         (reachable g v = set (nodes g) \<longrightarrow>
            map_of (closeness_centrality g) v =
              Some (if card (reachable g v) = 1 then 0
                    else (of_nat (card (reachable g v)) - 1)
                           / of_nat (\<Sum>u\<in>reachable g v. distance g v u)))"
proof (intro conjI impI)
  have m: "map_of (closeness_centrality g) v = Some (closeness_of g v)"
    unfolding closeness_centrality_def using assms(2) by (rule map_of_tabulate)
  show 1: "map_of (closeness_centrality g) v =
           Some (if card (reachable g v) = 1 then 0
                 else ((of_nat (card (reachable g v)) - 1)
                         / of_nat (\<Sum>u\<in>reachable g v. distance g v u)) *
                      ((of_nat (card (reachable g v)) - 1) / (of_nat (length (nodes g)) - 1)))"
    unfolding m closeness_of_eq [OF assms] by (rule refl)
  assume all: "reachable g v = set (nodes g)"
  have "distinct (nodes g)" using assms(1) by (simp add: wf_graph_def)
  then have c: "card (reachable g v) = length (nodes g)"
    unfolding all by (rule distinct_card)
  show "map_of (closeness_centrality g) v =
              Some (if card (reachable g v) = 1 then 0
                    else (of_nat (card (reachable g v)) - 1)
                           / of_nat (\<Sum>u\<in>reachable g v. distance g v u))"
  proof (cases "card (reachable g v) = 1")
    case True
    with 1 show ?thesis by simp
  next
    case False
    with card_reachable_pos [OF assms] have "1 < card (reachable g v)" by linarith
    then have "(of_nat (card (reachable g v)) - 1 :: rat) \<noteq> 0" by simp
    then have "(of_nat (card (reachable g v)) - 1) / (of_nat (length (nodes g)) - 1) = (1::rat)"
      unfolding c [symmetric] by simp
    with 1 False show ?thesis by simp
  qed
qed

theorem closeness_centrality_formula_witness:
  "map_of (closeness_centrality (parse_adjacency_list ''A B\<newline>B C'')) ''A'' = Some (2 / 3) \<and>
   (if card (reachable (parse_adjacency_list ''A B\<newline>B C'') ''A'') = 1 then 0
    else ((of_nat (card (reachable (parse_adjacency_list ''A B\<newline>B C'') ''A'')) - 1)
           / of_nat (\<Sum>u\<in>reachable (parse_adjacency_list ''A B\<newline>B C'') ''A''.
                       distance (parse_adjacency_list ''A B\<newline>B C'') ''A'' u)) *
         ((of_nat (card (reachable (parse_adjacency_list ''A B\<newline>B C'') ''A'')) - 1)
           / (of_nat (length (nodes (parse_adjacency_list ''A B\<newline>B C''))) - 1))) = (2 / 3 :: rat)"
proof -
  let ?g = "parse_adjacency_list ''A B\<newline>B C''"
  have wf: "wf_graph ?g" by (rule wf_graph_parse)
  have n: "''A'' \<in> set (nodes ?g)" by code_simp
  have m: "map_of (closeness_centrality ?g) ''A'' = Some (2 / 3)" by code_simp
  from closeness_centrality_formula [OF wf n] m show ?thesis by simp
qed

section \<open>Connectivity, sampling and the metrics bundle\<close>

lemma walk_trans: "walk g b k c \<Longrightarrow> walk g a j b \<Longrightarrow> walk g a (j + k) c"
proof (induction rule: walk.induct)
  case walk_0
  then show ?case by simp
next
  case (walk_Suc k v w)
  then have "walk g a (j + k) v" by simp
  then have "walk g a (Suc (j + k)) w" using walk_Suc.hyps(2) by (rule walk.walk_Suc)
  then show ?case by simp
qed

lemma adj_sym:
  assumes "wf_graph g" and "w \<in> set (adj g v)"
  shows "v \<in> set (adj g w)"
proof (cases "v \<in> set (nodes g)")
  case True
  with assms show ?thesis unfolding wf_graph_def by blast
next
  case False
  then have "adj g v = []" by (rule adj_notin_nodes)
  with assms(2) show ?thesis by simp
qed

lemma walk_sym:
  assumes "wf_graph g"
  shows "walk g s k u \<Longrightarrow> walk g u k s"
proof (induction rule: walk.induct)
  case walk_0
  show ?case by (rule walk.walk_0)
next
  case (walk_Suc k v w)
  have "v \<in> set (adj g w)" using assms walk_Suc.hyps(2) by (rule adj_sym)
  with walk.walk_0 [of g w] have "walk g w (Suc 0) v" by (rule walk.walk_Suc)
  with walk_Suc.IH have "walk g w (Suc 0 + k) s" by (rule walk_trans)
  then show ?case by simp
qed

lemma reachable_sym: "wf_graph g \<Longrightarrow> u \<in> reachable g s \<Longrightarrow> s \<in> reachable g u"
  unfolding reachable_def using walk_sym by blast

lemma reachable_trans: "b \<in> reachable g a \<Longrightarrow> c \<in> reachable g b \<Longrightarrow> c \<in> reachable g a"
  unfolding reachable_def using walk_trans by blast

lemma is_connected_False:
  assumes wf: "wf_graph g" and u: "u \<in> set (nodes g)" and v: "v \<in> set (nodes g)"
    and nr: "v \<notin> reachable g u"
  shows "is_connected g = Inr False"
proof -
  from u have ne: "nodes g \<noteq> []" by auto
  then have s0: "hd (nodes g) \<in> set (nodes g)" by (rule hd_in_set)
  let ?s = "hd (nodes g)"
  have len: "length (single_source_shortest_path_length g ?s) = card (reachable g ?s)"
    by (rule sssp_length [OF wf s0])
  have "card (reachable g ?s) \<noteq> length (nodes g)"
  proof
    assume c: "card (reachable g ?s) = length (nodes g)"
    have "distinct (nodes g)" using wf by (simp add: wf_graph_def)
    then have "card (set (nodes g)) = length (nodes g)" by (rule distinct_card)
    with c have "card (reachable g ?s) = card (set (nodes g))" by simp
    with reachable_nodes [OF wf s0] have all: "reachable g ?s = set (nodes g)"
      by (intro card_subset_eq) simp_all
    from u all have "u \<in> reachable g ?s" by simp
    then have "?s \<in> reachable g u" by (rule reachable_sym [OF wf])
    moreover from v all have "v \<in> reachable g ?s" by simp
    ultimately have "v \<in> reachable g u" by (rule reachable_trans)
    with nr show False by simp
  qed
  with ne show ?thesis unfolding is_connected_def len by simp
qed

lemma two_nodes:
  assumes wf: "wf_graph g" and u: "u \<in> set (nodes g)" and v: "v \<in> set (nodes g)"
    and nr: "v \<notin> reachable g u"
  shows "2 \<le> length (nodes g)"
proof -
  have "u \<noteq> v" using nr reachable_self [of u g] by auto
  with u v have "{u, v} \<subseteq> set (nodes g)" "card {u, v} = 2" by simp_all
  then have "2 \<le> card (set (nodes g))" by (metis card_mono List.finite_set)
  also have "\<dots> \<le> length (nodes g)" by (rule card_length)
  finally show ?thesis .
qed

lemma aspl_disconnected:
  assumes wf: "wf_graph g" and u: "u \<in> set (nodes g)" and v: "v \<in> set (nodes g)"
    and nr: "v \<notin> reachable g u"
  shows "average_shortest_path_length ar g = Inl NetworkXError"
proof -
  have n: "2 \<le> length (nodes g)" by (rule two_nodes [OF assms])
  have c: "is_connected g = Inr False" by (rule is_connected_False [OF assms])
  from u have "nodes g \<noteq> []" by auto
  moreover from n have "length (nodes g) \<noteq> 1" by simp
  ultimately show ?thesis unfolding average_shortest_path_length_def c Let_def by simp
qed

lemma take_update_last:
  assumes "j < m" and "m \<le> length pool"
  shows "mset (take (m - 1) (pool[j := pool ! (m - 1)])) + {#pool ! j#} = mset (take m pool)"
proof -
  from assms obtain m' where m: "m = Suc m'" by (cases m) auto
  have tm: "take m pool = take m' pool @ [pool ! m']"
    using assms(2) m by (simp add: take_Suc_conv_app_nth)
  show ?thesis
  proof (cases "j = m'")
    case True
    then show ?thesis using tm m by simp
  next
    case False
    with assms(1) m have jl: "j < m'" by simp
    have "take m' (pool[j := pool ! m']) = (take m' pool)[j := pool ! m']"
      by (simp add: take_update_swap)
    moreover have "j < length (take m' pool)" using jl assms(2) m by simp
    ultimately have "mset (take m' (pool[j := pool ! m'])) =
        mset (take m' pool) - {#take m' pool ! j#} + {#pool ! m'#}"
      by (simp add: mset_update)
    moreover have "take m' pool ! j = pool ! j" using jl by simp
    moreover have "pool ! j \<in># mset (take m' pool)"
      using jl assms(2) m by (metis \<open>j < length (take m' pool)\<close> \<open>take m' pool ! j = pool ! j\<close> nth_mem_mset)
    ultimately show ?thesis using tm m by simp
  qed
qed

lemma sample_loop_props:
  "i + r \<le> n \<Longrightarrow> n - i \<le> length pool \<Longrightarrow>
   mset (sample_loop rnd n i r pool) \<subseteq># mset (take (n - i) pool) \<and>
   length (sample_loop rnd n i r pool) = r"
proof (induction r arbitrary: i pool)
  case 0
  then show ?case by simp
next
  case (Suc r)
  let ?m = "n - i"
  let ?j = "randbelow rnd i ?m"
  let ?pool' = "pool[?j := pool ! (?m - 1)]"
  from Suc.prems(1) have mpos: "0 < ?m" by simp
  then have j: "?j < ?m" by (simp add: randbelow_def)
  have m1: "n - (i + 1) = ?m - 1" by simp
  have "(i + 1) + r \<le> n" using Suc.prems(1) by simp
  moreover have "n - (i + 1) \<le> length ?pool'" using Suc.prems(2) by simp
  ultimately have ih: "mset (sample_loop rnd n (i + 1) r ?pool') \<subseteq># mset (take (n - (i + 1)) ?pool') \<and>
      length (sample_loop rnd n (i + 1) r ?pool') = r"
    by (rule Suc.IH)
  have eq: "mset (take (?m - 1) ?pool') + {#pool ! ?j#} = mset (take ?m pool)"
    using j Suc.prems(2) by (rule take_update_last)
  have unf: "sample_loop rnd n i (Suc r) pool = pool ! ?j # sample_loop rnd n (i + 1) r ?pool'"
    by (simp add: Let_def)
  have "mset (sample_loop rnd n i (Suc r) pool) =
      mset (sample_loop rnd n (i + 1) r ?pool') + {#pool ! ?j#}"
    unfolding unf by simp
  also have "\<dots> \<subseteq># mset (take (?m - 1) ?pool') + {#pool ! ?j#}"
    using ih unfolding m1 by (simp add: subset_mset.add_right_mono)
  finally have "mset (sample_loop rnd n i (Suc r) pool) \<subseteq># mset (take ?m pool)"
    unfolding eq .
  moreover have "length (sample_loop rnd n i (Suc r) pool) = Suc r"
    unfolding unf using ih by simp
  ultimately show ?case by blast
qed

lemma mset_sub_distinct: "mset xs \<subseteq># mset ys \<Longrightarrow> distinct ys \<Longrightarrow> distinct xs"
proof -
  assume sub: "mset xs \<subseteq># mset ys" and d: "distinct ys"
  have "count (mset xs) a \<le> 1" for a
  proof -
    have "count (mset xs) a \<le> count (mset ys) a" using sub by (rule mset_subset_eq_count)
    also have "\<dots> \<le> 1" using d by (simp add: distinct_count_atmost_1)
    finally show ?thesis .
  qed
  then show "distinct xs" unfolding distinct_count_atmost_1 
    by (metis count_mset_0_iff le_antisym less_one linorder_le_less_linear set_mset_mset zero_order(1) not_in_iff)
qed

lemma random_sample_props:
  assumes "k \<le> length population"
  shows "\<exists>srcs. random_sample rnd population k = Inr srcs \<and> length srcs = k \<and>
           mset srcs \<subseteq># mset population"
proof -
  let ?n = "length population"
  have "mset (sample_loop rnd ?n 0 k population) \<subseteq># mset (take (?n - 0) population) \<and>
        length (sample_loop rnd ?n 0 k population) = k"
    using assms by (intro sample_loop_props) simp_all
  then show ?thesis using assms by (simp add: random_sample_def)
qed

lemma betweenness_ok:
  "\<exists>srcs. betweenness_sources lib g (Some (min 100 (length (nodes g)))) = Inr srcs \<and>
     betweenness_centrality lib g (Some (min 100 (length (nodes g)))) =
       Inr (accumulate lib g srcs (Some (min 100 (length (nodes g))))) \<and>
     length srcs = min 100 (length (nodes g)) \<and> mset srcs \<subseteq># mset (nodes g)"
proof -
  have "min 100 (length (nodes g)) \<le> length (nodes g)" by simp
  from random_sample_props [OF this, of "rand lib"] obtain srcs where
    s: "random_sample (rand lib) (nodes g) (min 100 (length (nodes g))) = Inr srcs"
       "length srcs = min 100 (length (nodes g))" "mset srcs \<subseteq># mset (nodes g)" by blast
  then show ?thesis by (simp add: betweenness_sources_def betweenness_centrality_def)
qed

end
